theory Spec2Isabelle
  imports Complex_Main
begin

section \<open>Data model\<close>

text \<open>
  The module \<^verbatim>\<open>asyncmd/trajectory/propagate.py\<close> drives an MD engine segment by segment
  until a condition holds on a produced frame, and builds the slice plans that stitch
  the segments into one trajectory.

  A trajectory is the finite sequence of its frames; \<^verbatim>\<open>len(traj)\<close> is the length of the
  list. A condition function maps a trajectory to one truth value per frame, so the
  values of all conditions on one trajectory form a matrix (conditions by frames), a
  list of rows. Frame and condition indices produced by \<^verbatim>\<open>np.where\<close> are natural
  numbers; the entries of a slice tuple are Python integers.
\<close>

type_synonym 'f traj = "'f list"

type_synonym cond_matrix = "bool list list"

text \<open>
  What a condition is called for: its truth values, one per frame. The call of an
  ordinary callable returns them, \<open>Values v\<close>; the call of an asynchronous callable
  returns a coroutine object, \<open>Unawaited v\<close>, which gives the values \<open>v\<close> only when it is
  awaited. A list of such results is what the evaluator of the conditions returns; a
  matrix is the array numpy makes of it.
\<close>

datatype returned = Values "bool list" | Unawaited "bool list"

text \<open>A slice tuple \<^verbatim>\<open>(start, stop, step)\<close>; \<^verbatim>\<open>None\<close> as stop is \<open>None\<close>.\<close>

type_synonym slice = "int \<times> int option \<times> int"

text \<open>
  The step budget is a Python integer or \<^verbatim>\<open>np.inf\<close>, which compares greater than every
  integer.
\<close>

datatype steps_limit = Steps int | Infinity

fun within_limit :: "int \<Rightarrow> steps_limit \<Rightarrow> bool" where
  "within_limit n (Steps m) = (n \<le> m)"
| "within_limit n Infinity = True"

text \<open>
  Every raise of the source is a value. \<open>ValueError\<close> stands for the errors of numpy
  (an empty sequence given to \<^verbatim>\<open>argmin\<close>, \<^verbatim>\<open>min\<close> or \<^verbatim>\<open>concatenate\<close>, arrays whose shapes
  do not fit, a slice step of zero), \<open>IndexError\<close> for a list index out of range,
  \<open>TypeError\<close> for \<^verbatim>\<open>len\<close> of an object without a length and for \<^verbatim>\<open>asyncio.gather\<close> on
  an object that cannot be awaited. \<open>MaxStepsReachedError\<close> carries the two numbers its
  message is formatted from.
\<close>

datatype error =
    ValueError
  | IndexError
  | KeyError
  | TypeError
  | MaxStepsReachedError int steps_limit

text \<open>Sequencing of fallible steps: the first error aborts what follows.\<close>

definition and_then :: "error + 'a \<Rightarrow> ('a \<Rightarrow> error + 'b) \<Rightarrow> error + 'b" where
  "and_then r f = (case r of Inl e \<Rightarrow> Inl e | Inr x \<Rightarrow> f x)"

fun collect :: "(error + 'a) list \<Rightarrow> error + 'a list" where
  "collect [] = Inr []"
| "collect (r # rs) =
     (case r of
        Inl e \<Rightarrow> Inl e
      | Inr x \<Rightarrow> (case collect rs of Inl e \<Rightarrow> Inl e | Inr xs \<Rightarrow> Inr (x # xs)))"

section \<open>The numpy and Python primitives the module calls\<close>

text \<open>
  Subscripting a list with a Python integer, \<^verbatim>\<open>xs[i]\<close>: an index from \<open>-len(xs)\<close> up
  to \<open>-1\<close> addresses the list from its end, and an index outside
  \<open>-len(xs) .. len(xs) - 1\<close> raises.
\<close>

definition py_index :: "'a list \<Rightarrow> int \<Rightarrow> error + 'a" where
  "py_index xs i =
     (if 0 \<le> i \<and> i < int (length xs) then Inr (xs ! nat i)
      else if i < 0 \<and> - int (length xs) \<le> i then Inr (xs ! nat (int (length xs) + i))
      else Inl IndexError)"

text \<open>
  \<^verbatim>\<open>np.asarray\<close> on the list the evaluator returns, and \<^verbatim>\<open>np.any\<close>, which makes an
  array of its argument first: the rows must have one common length to form a
  two-dimensional array. A list that holds a coroutine object is no array of truth
  values. Beside rows it is ragged and \<^verbatim>\<open>np.asarray\<close> raises \<open>ValueError\<close>. A list of
  coroutine objects only gives a one-dimensional array of objects: \<^verbatim>\<open>np.any\<close> is truthy
  on it, and what the module does next with it raises \<open>ValueError\<close> before anything else
  happens (the two results of \<^verbatim>\<open>np.where\<close> it unpacks are one, and \<^verbatim>\<open>np.concatenate\<close>
  has no axis 1). Both cases are \<open>ValueError\<close> here.
\<close>

definition rectangular :: "cond_matrix \<Rightarrow> bool" where
  "rectangular c = list_all (\<lambda>r. length r = length (hd c)) c"

fun truth_values :: "returned \<Rightarrow> error + bool list" where
  "truth_values (Values v) = Inr v"
| "truth_values (Unawaited v) = Inl ValueError"

definition np_asarray :: "returned list \<Rightarrow> error + cond_matrix" where
  "np_asarray c =
     and_then (collect (map truth_values c))
       (\<lambda>a. if rectangular a then Inr a else Inl ValueError)"

definition np_any :: "returned list \<Rightarrow> error + bool" where
  "np_any c = and_then (np_asarray c) (\<lambda>a. Inr (list_ex (list_ex id) a))"

text \<open>
  \<^verbatim>\<open>np.where\<close> on a one-dimensional array gives the indices of the true entries in
  increasing order; on a two-dimensional array it gives the (row, column) pairs of the
  true entries in row-major order, as two parallel arrays.
\<close>

definition np_where1 :: "bool list \<Rightarrow> nat list" where
  "np_where1 v = filter (\<lambda>j. v ! j) [0..<length v]"

definition np_where2 :: "cond_matrix \<Rightarrow> (nat \<times> nat) list" where
  "np_where2 c = concat (map (\<lambda>i. map (\<lambda>j. (i, j)) (np_where1 (c ! i))) [0..<length c])"

text \<open>
  \<^verbatim>\<open>np.argmin\<close> returns the index of the first occurrence of the minimum and raises on
  an empty array; so does \<^verbatim>\<open>np.min\<close>.
\<close>

fun argmin_from :: "nat list \<Rightarrow> nat \<Rightarrow> nat \<Rightarrow> nat \<Rightarrow> nat" where
  "argmin_from [] i best_idx best = best_idx"
| "argmin_from (x # xs) i best_idx best =
     (if x < best then argmin_from xs (Suc i) i x
      else argmin_from xs (Suc i) best_idx best)"

definition np_argmin :: "nat list \<Rightarrow> error + nat" where
  "np_argmin xs = (case xs of [] \<Rightarrow> Inl ValueError | x # rest \<Rightarrow> Inr (argmin_from rest 1 0 x))"

definition np_min :: "nat list \<Rightarrow> error + nat" where
  "np_min xs = (case xs of [] \<Rightarrow> Inl ValueError | x # rest \<Rightarrow> Inr (fold min rest x))"

text \<open>
  \<^verbatim>\<open>np.concatenate(..., axis=0)\<close> of one-dimensional arrays, and
  \<^verbatim>\<open>np.concatenate([np.asarray(c) for c in cond_vals], axis=1)\<close> of matrices: the list
  must not be empty, every matrix must be two-dimensional (rectangular, with at least
  one row) and all must have the same number of rows; row \<open>i\<close> of the result is the
  rows \<open>i\<close> of the matrices one after the other.
\<close>

definition np_concatenate_axis0 :: "bool list list \<Rightarrow> error + bool list" where
  "np_concatenate_axis0 vs = (if vs = [] then Inl ValueError else Inr (concat vs))"

definition np_concatenate_axis1 :: "returned list list \<Rightarrow> error + cond_matrix" where
  "np_concatenate_axis1 cs =
     and_then (collect (map np_asarray cs)) (\<lambda>arrs.
       if arrs = [] then Inl ValueError
       else if list_ex (\<lambda>a. a = []) arrs then Inl ValueError
       else if list_ex (\<lambda>a. length a \<noteq> length (hd arrs)) arrs then Inl ValueError
       else Inr (map (\<lambda>i. concat (map (\<lambda>a. a ! i) arrs)) [0..<length (hd arrs)]))"

text \<open>
  The frames \<^verbatim>\<open>seq[start:stop:step]\<close> selects from a sequence of \<open>n\<close> frames, as
  \<^verbatim>\<open>slice.indices\<close> and \<^verbatim>\<open>range\<close> compute them.
\<close>

definition slice_bound :: "int \<Rightarrow> int \<Rightarrow> int \<Rightarrow> int \<Rightarrow> int" where
  "slice_bound n lower upper i =
     (let j = (if i < 0 then i + n else i)
      in if j < lower then lower else if j > upper then upper else j)"

definition py_range :: "int \<Rightarrow> int \<Rightarrow> int \<Rightarrow> int list" where
  "py_range start stop step =
     (if step > 0
      then map (\<lambda>k. start + int k * step) [0..<nat ((stop - start + step - 1) div step)]
      else map (\<lambda>k. start + int k * step) [0..<nat ((start - stop - step - 1) div (- step))])"

definition slice_indices :: "nat \<Rightarrow> slice \<Rightarrow> error + int list" where
  "slice_indices n s =
     (case s of (start, stop, step) \<Rightarrow>
        if step = 0 then Inl ValueError
        else
          let lower = (if step < 0 then - 1 else 0);
              upper = (if step < 0 then int n - 1 else int n);
              a = slice_bound (int n) lower upper start;
              b = (case stop of
                     None \<Rightarrow> (if step < 0 then lower else upper)
                   | Some e \<Rightarrow> slice_bound (int n) lower upper e)
          in Inr (py_range a b step))"

definition py_slice :: "'a list \<Rightarrow> slice \<Rightarrow> error + 'a list" where
  "py_slice xs s =
     and_then (slice_indices (length xs) s) (\<lambda>idxs. Inr (map (\<lambda>i. xs ! nat i) idxs))"

section \<open>Locating the first frame on which a condition holds\<close>

text \<open>
  The three lines shared by \<^verbatim>\<open>propagate\<close> and \<^verbatim>\<open>cut_and_concatenate\<close>:
  \<^verbatim>\<open>
  conds_fullfilled, frame_nums = np.where(cond_vals)
  min_idx = np.argmin(frame_nums)
  first_condition_fullfilled = conds_fullfilled[min_idx]
  \<close>
  The result is the pair \<^verbatim>\<open>(conds_fullfilled[min_idx], frame_nums[min_idx])\<close>.
\<close>

definition first_fullfilled :: "cond_matrix \<Rightarrow> error + nat \<times> nat" where
  "first_fullfilled cond_vals =
     (let w = np_where2 cond_vals;
          conds_fullfilled = map fst w;
          frame_nums = map snd w
      in and_then (np_argmin frame_nums) (\<lambda>min_idx.
           Inr (conds_fullfilled ! min_idx, frame_nums ! min_idx)))"

text \<open>
  The walk over the cumulative part lengths:
  \<^verbatim>\<open>
  last_part_idx = 0
  frame_sum = part_lens[last_part_idx]
  while first_frame >= frame_sum:
      last_part_idx += 1
      frame_sum += part_lens[last_part_idx]
  \<close>
  Reading \<^verbatim>\<open>part_lens\<close> past its end raises \<open>IndexError\<close>.
\<close>

function find_part_loop :: "nat list \<Rightarrow> nat \<Rightarrow> nat \<Rightarrow> nat \<Rightarrow> error + nat" where
  "find_part_loop part_lens first_frame last_part_idx frame_sum =
     (if first_frame \<ge> frame_sum
      then (if Suc last_part_idx < length part_lens
            then find_part_loop part_lens first_frame (Suc last_part_idx)
                   (frame_sum + part_lens ! Suc last_part_idx)
            else Inl IndexError)
      else Inr last_part_idx)"
  by pat_completeness auto
termination
  by (relation "measure (\<lambda>(part_lens, first_frame, last_part_idx, frame_sum).
        length part_lens - last_part_idx)") auto

declare find_part_loop.simps [simp del]

definition find_part :: "nat list \<Rightarrow> nat \<Rightarrow> error + nat" where
  "find_part part_lens first_frame =
     (case part_lens of
        [] \<Rightarrow> Inl IndexError
      | l # _ \<Rightarrow> find_part_loop part_lens first_frame 0 l)"

text \<open>
  \<^verbatim>\<open>first_frame - sum(part_lens[:last_part_idx])\<close>, a subtraction of Python integers.
\<close>

definition local_frame :: "nat list \<Rightarrow> nat \<Rightarrow> nat \<Rightarrow> int" where
  "local_frame part_lens first_frame last_part_idx =
     int first_frame - int (sum_list (take last_part_idx part_lens))"

section \<open>The condition evaluator\<close>

text \<open>
  A condition is a callable from a trajectory to one truth value per frame:
  \<^item> \<open>Blocking f\<close>, an ordinary callable, whose call returns the values;
  \<^item> \<open>Coroutine f\<close>, an object whose \<^verbatim>\<open>__call__\<close> method is a coroutine function, as a
    \<^verbatim>\<open>TrajectoryFunctionWrapper\<close> is;
  \<^item> \<open>AsyncDef f\<close>, a plain coroutine function (\<^verbatim>\<open>async def\<close>) or a \<^verbatim>\<open>functools.partial\<close>
    of one.

  The call of the last two returns a coroutine object. \<open>iscoroutinefunction\<close> is what
  \<^verbatim>\<open>inspect.iscoroutinefunction(c.__call__)\<close> answers in the setter of \<^verbatim>\<open>conditions\<close>: the
  \<^verbatim>\<open>__call__\<close> of a plain coroutine function is a method-wrapper, not a coroutine
  function, so the answer is \<open>False\<close> for it. \<open>invoke c traj\<close> is the object \<^verbatim>\<open>c(traj)\<close>
  evaluates to; \<open>call c traj\<close> is the truth values of the condition, which that object
  is or gives when awaited.
\<close>

datatype 'f condition =
    Blocking "'f traj \<Rightarrow> bool list"
  | Coroutine "'f traj \<Rightarrow> bool list"
  | AsyncDef "'f traj \<Rightarrow> bool list"

fun iscoroutinefunction :: "'f condition \<Rightarrow> bool" where
  "iscoroutinefunction (Blocking f) = False"
| "iscoroutinefunction (Coroutine f) = True"
| "iscoroutinefunction (AsyncDef f) = False"

fun call :: "'f condition \<Rightarrow> 'f traj \<Rightarrow> bool list" where
  "call (Blocking f) traj = f traj"
| "call (Coroutine f) traj = f traj"
| "call (AsyncDef f) traj = f traj"

fun invoke :: "'f condition \<Rightarrow> 'f traj \<Rightarrow> returned" where
  "invoke (Blocking f) traj = Values (f traj)"
| "invoke (Coroutine f) traj = Unawaited (f traj)"
| "invoke (AsyncDef f) traj = Unawaited (f traj)"

text \<open>
  \<^verbatim>\<open>await asyncio.gather(*aws)\<close> awaits every awaitable and returns the list of their
  results in the order of the awaitables it was given. It raises \<open>TypeError\<close> for an
  argument that is no awaitable.
\<close>

fun await :: "returned \<Rightarrow> error + bool list" where
  "await (Unawaited v) = Inr v"
| "await (Values v) = Inl TypeError"

definition asyncio_gather :: "returned list \<Rightarrow> error + bool list list" where
  "asyncio_gather aws = collect (map await aws)"

text \<open>
  The loop of the mixed branch of \<^verbatim>\<open>_condition_vals_for_traj\<close>:
  \<^verbatim>\<open>
  for c, c_is_coro in zip(self.conditions, self._condition_func_is_coroutine):
      if c_is_coro:
          all_results.append(coro_res.pop(0))
      else:
          all_results.append(c(traj))
  \<close>
  \<^verbatim>\<open>pop(0)\<close> on an empty list raises \<open>IndexError\<close>. What \<^verbatim>\<open>c(traj)\<close> returns is appended
  as it is, a coroutine object too.
\<close>

fun piece_together ::
  "('f condition \<times> bool) list \<Rightarrow> 'f traj \<Rightarrow> bool list list \<Rightarrow> returned list
     \<Rightarrow> error + returned list" where
  "piece_together [] traj coro_res all_results = Inr all_results"
| "piece_together ((c, c_is_coro) # rest) traj coro_res all_results =
     (if c_is_coro
      then (case coro_res of
              [] \<Rightarrow> Inl IndexError
            | r # coro_res' \<Rightarrow>
                piece_together rest traj coro_res' (all_results @ [Values r]))
      else piece_together rest traj coro_res (all_results @ [invoke c traj]))"

text \<open>
  \<^verbatim>\<open>_condition_vals_for_traj\<close>, for the conditions and the flags the propagator holds:
  all flagged conditions are gathered, the others are called where they stand and what
  they return is put in the list without being awaited.
\<close>

definition condition_vals_for_traj ::
  "'f condition list \<Rightarrow> bool list \<Rightarrow> 'f traj \<Rightarrow> error + returned list" where
  "condition_vals_for_traj conds is_coroutine traj =
     (if list_all id is_coroutine
      then and_then (asyncio_gather (map (\<lambda>c. invoke c traj) conds))
             (\<lambda>res. Inr (map Values res))
      else if \<not> list_ex id is_coroutine
      then Inr (map (\<lambda>c. invoke c traj) conds)
      else
        let coros = map (\<lambda>(c, c_is_coro). invoke c traj)
                      (filter (\<lambda>(c, c_is_coro). c_is_coro) (zip conds is_coroutine))
        in and_then (asyncio_gather coros)
             (\<lambda>coro_res. piece_together (zip conds is_coroutine) traj coro_res []))"

section \<open>Cutting and concatenating\<close>

text \<open>
  Modelled from the spec: \<^verbatim>\<open>TrajectoryConcatenator.concatenate\<close> is defined in
  \<^verbatim>\<open>asyncmd/trajectory/convert.py\<close>, of which only the call is at hand. The spec has it
  read, for each (segment, slice) pair of the plan in order, the frames the slice
  selects, and write them one after the other into the output trajectory. The output
  file, the structure file and the overwrite policy are left out.
\<close>

definition concatenate :: "'f traj list \<Rightarrow> slice list \<Rightarrow> error + 'f traj" where
  "concatenate trajs slices =
     and_then (collect (map (\<lambda>(t, s). py_slice t s) (zip trajs slices)))
       (\<lambda>parts. Inr (concat parts))"

text \<open>
  \<^verbatim>\<open>len(c[0])\<close>: the number of frames condition 0 reports for a segment. A coroutine
  object has no \<^verbatim>\<open>len\<close> (\<open>TypeError\<close>).
\<close>

definition part_len :: "returned list \<Rightarrow> error + nat" where
  "part_len c =
     (case c of
        [] \<Rightarrow> Inl IndexError
      | Unawaited r # _ \<Rightarrow> Inl TypeError
      | Values r # _ \<Rightarrow> Inr (length r))"

text \<open>
  The locator of \<^verbatim>\<open>cut_and_concatenate\<close>, from the condition values of the segments
  to \<^verbatim>\<open>first_condition_fullfilled\<close>, \<^verbatim>\<open>first_frame_in_cond\<close>, \<^verbatim>\<open>last_part_idx\<close> and
  \<^verbatim>\<open>_first_frame_in_cond\<close>.
\<close>

definition locate :: "returned list list \<Rightarrow> error + nat \<times> nat \<times> nat \<times> int" where
  "locate cond_vals =
     and_then (collect (map part_len cond_vals)) (\<lambda>part_lens.
     and_then (np_concatenate_axis1 cond_vals) (\<lambda>cv.
     and_then (first_fullfilled cv) (\<lambda>(first_condition_fullfilled, first_frame_in_cond).
     and_then (find_part part_lens first_frame_in_cond) (\<lambda>last_part_idx.
       Inr (first_condition_fullfilled, first_frame_in_cond, last_part_idx,
            local_frame part_lens first_frame_in_cond last_part_idx)))))"

text \<open>
  The slices of \<^verbatim>\<open>cut_and_concatenate\<close>: the parts taken fully, then the last part up
  to and including the first frame in a condition.
\<close>

definition cut_slices :: "nat \<Rightarrow> int \<Rightarrow> slice list" where
  "cut_slices last_part_idx first_frame_in_part =
     (if last_part_idx > 0 then map (\<lambda>_. (0, None, 1)) [0..<last_part_idx] else [])
     @ [(0, Some (first_frame_in_part + 1), 1)]"

text \<open>
  \<open>cut_and_concatenate_plan\<close> is the method up to the \<^verbatim>\<open>functools.partial\<close> it builds:
  the \<^verbatim>\<open>trajs\<close> and \<^verbatim>\<open>slices\<close> arguments for the concatenator, and the index of the
  condition. \<open>cut_and_concatenate\<close> then runs the concatenator on them.
\<close>

definition cut_and_concatenate_plan ::
  "'f condition list \<Rightarrow> bool list \<Rightarrow> 'f traj list
     \<Rightarrow> error + ('f traj list \<times> slice list) \<times> nat" where
  "cut_and_concatenate_plan conds is_coroutine trajs =
     and_then (collect (map (condition_vals_for_traj conds is_coroutine) trajs)) (\<lambda>cond_vals.
     and_then (locate cond_vals)
       (\<lambda>(first_condition_fullfilled, first_frame_in_cond, last_part_idx, first_frame_in_part).
          Inr ((take (last_part_idx + 1) trajs, cut_slices last_part_idx first_frame_in_part),
               first_condition_fullfilled)))"

definition cut_and_concatenate ::
  "'f condition list \<Rightarrow> bool list \<Rightarrow> 'f traj list \<Rightarrow> error + 'f traj \<times> nat" where
  "cut_and_concatenate conds is_coroutine trajs =
     and_then (cut_and_concatenate_plan conds is_coroutine trajs)
       (\<lambda>((ts, slices), first_condition_fullfilled).
          and_then (concatenate ts slices) (\<lambda>full_traj.
            Inr (full_traj, first_condition_fullfilled)))"

section \<open>The two-way join\<close>

text \<open>
  The locating lines that \<^verbatim>\<open>construct_TP_from_plus_and_minus_traj_segments\<close> runs once
  on the minus chain and once on the plus chain, from the state values of the segments
  (one vector per segment) to \<^verbatim>\<open>last_part_idx\<close> and the local frame
  \<^verbatim>\<open>_first_frame_in_minus\<close> (or \<^verbatim>\<open>_first_frame_in_plus\<close>):
  \<^verbatim>\<open>
  part_lens = [len(v) for v in state_vals]
  state_vals = np.concatenate(state_vals, axis=0)
  frames_in_state, = np.where(state_vals)
  first_frame_in_state = np.min(frames_in_state)
  \<close>
  followed by the walk over the part lengths.
\<close>

definition chain_address :: "bool list list \<Rightarrow> error + nat \<times> int" where
  "chain_address state_vals =
     (let part_lens = map length state_vals
      in and_then (np_concatenate_axis0 state_vals) (\<lambda>vals.
         and_then (np_min (np_where1 vals)) (\<lambda>first_frame.
         and_then (find_part part_lens first_frame) (\<lambda>last_part_idx.
           Inr (last_part_idx, local_frame part_lens first_frame last_part_idx)))))"

text \<open>
  \<^verbatim>\<open>await asyncio.gather(*(state_funcs[state](t) for t in trajs))\<close>: the subscript is
  evaluated once per trajectory, so an index out of range raises only when there is a
  trajectory.
\<close>

definition state_vals_of ::
  "'f condition list \<Rightarrow> int \<Rightarrow> 'f traj list \<Rightarrow> error + bool list list" where
  "state_vals_of state_funcs state trajs =
     and_then
       (collect (map (\<lambda>t. and_then (py_index state_funcs state) (\<lambda>f. Inr (invoke f t))) trajs))
       asyncio_gather"

text \<open>The slices and trajectories of the minus chain, read backwards.\<close>

definition minus_plan ::
  "'f traj list \<Rightarrow> nat \<Rightarrow> int \<Rightarrow> 'f traj list \<times> slice list" where
  "minus_plan minus_trajs last_part_idx first_frame_in_minus =
     ([minus_trajs ! last_part_idx] @ map (\<lambda>i. minus_trajs ! i) (rev [0..<last_part_idx]),
      [(first_frame_in_minus, None, - 1)]
      @ map (\<lambda>_. (- 1, None, - 1)) (rev [0..<last_part_idx]))"

text \<open>
  The slices and trajectories of the plus chain, read forwards without the starting
  configuration.
\<close>

definition plus_plan ::
  "'f traj list \<Rightarrow> nat \<Rightarrow> int \<Rightarrow> 'f traj list \<times> slice list" where
  "plus_plan plus_trajs last_part_idx first_frame_in_plus =
     (if last_part_idx > 0
      then ([plus_trajs ! 0] @ map (\<lambda>i. plus_trajs ! i) [1..<last_part_idx]
            @ [plus_trajs ! last_part_idx],
            [(1, None, 1)] @ map (\<lambda>_. (0, None, 1)) [1..<last_part_idx]
            @ [(0, Some (first_frame_in_plus + 1), 1)])
      else ([plus_trajs ! last_part_idx], [(1, Some (first_frame_in_plus + 1), 1)]))"

text \<open>
  \<open>construct_TP_plan\<close> is the function up to the \<^verbatim>\<open>functools.partial\<close> it builds, with
  the \<^verbatim>\<open>trajs\<close> and \<^verbatim>\<open>slices\<close> it passes; the function then runs the concatenator on
  them. The concatenator inverts the momenta of the frames it reads with a negative
  step; the frames are taken here as they are stored.
\<close>

definition construct_TP_plan ::
  "'f traj list \<Rightarrow> int \<Rightarrow> 'f traj list \<Rightarrow> int \<Rightarrow> 'f condition list
     \<Rightarrow> error + 'f traj list \<times> slice list" where
  "construct_TP_plan minus_trajs minus_state plus_trajs plus_state state_funcs =
     and_then (state_vals_of state_funcs minus_state minus_trajs) (\<lambda>minus_state_vals.
     and_then (chain_address minus_state_vals) (\<lambda>(minus_idx, first_frame_in_minus).
     and_then (state_vals_of state_funcs plus_state plus_trajs) (\<lambda>plus_state_vals.
     and_then (chain_address plus_state_vals) (\<lambda>(plus_idx, first_frame_in_plus).
       let (mt, ms) = minus_plan minus_trajs minus_idx first_frame_in_minus;
           (pt, ps) = plus_plan plus_trajs plus_idx first_frame_in_plus
       in Inr (mt @ pt, ms @ ps)))))"

definition construct_TP_from_plus_and_minus_traj_segments ::
  "'f traj list \<Rightarrow> int \<Rightarrow> 'f traj list \<Rightarrow> int \<Rightarrow> 'f condition list \<Rightarrow> error + 'f traj" where
  "construct_TP_from_plus_and_minus_traj_segments minus_trajs minus_state plus_trajs plus_state
       state_funcs =
     and_then (construct_TP_plan minus_trajs minus_state plus_trajs plus_state state_funcs)
       (\<lambda>(trajs, slices). concatenate trajs slices)"

section \<open>The propagator\<close>

text \<open>
  The engine class, as \<^verbatim>\<open>propagate\<close> uses it: its class attribute
  \<^verbatim>\<open>output_traj_type\<close>, its constructor from the keyword arguments, and the methods
  \<^verbatim>\<open>prepare\<close>, \<^verbatim>\<open>prepare_from_files\<close> and \<^verbatim>\<open>run_walltime\<close>, each returning the engine
  as the call leaves it, and the attribute \<^verbatim>\<open>steps_done\<close>. The engine state \<open>'e\<close> is
  whatever the engine keeps; \<open>'v\<close> is the type of the values of the keyword arguments.
\<close>

record ('e, 'f, 'v) engine_class =
  output_traj_type :: 'v
  construct :: "(string \<rightharpoonup> 'v) \<Rightarrow> 'e"
  prepare :: "'e \<Rightarrow> 'f traj \<Rightarrow> string \<Rightarrow> string \<Rightarrow> 'e"
  prepare_from_files :: "'e \<Rightarrow> string \<Rightarrow> string \<Rightarrow> 'e"
  run_walltime :: "'e \<Rightarrow> real \<Rightarrow> 'f traj \<times> 'e"
  steps_done :: "'e \<Rightarrow> int"

record ('e, 'f, 'v) propagator =
  conditions :: "'f condition list"
  condition_func_is_coroutine :: "bool list"
  engine_cls :: "('e, 'f, 'v) engine_class"
  engine_kwargs :: "string \<rightharpoonup> 'v"
  walltime_per_part :: real
  max_steps :: steps_limit

text \<open>
  \<^verbatim>\<open>__init__\<close>, with the setter of \<^verbatim>\<open>conditions\<close> it runs. \<^verbatim>\<open>nstout_from_mdconfig\<close> is
  imported from \<^verbatim>\<open>asyncmd/utils.py\<close> and is a parameter here. A missing
  \<^verbatim>\<open>"output_traj_type"\<close> key is caught and replaced by the class default; a missing
  \<^verbatim>\<open>"mdconfig"\<close> key raises \<open>KeyError\<close>. The warnings and the info message that are only
  logged are left out.
\<close>

definition init ::
  "('v \<Rightarrow> 'v \<Rightarrow> error + int) \<Rightarrow> 'f condition list \<Rightarrow> ('e, 'f, 'v) engine_class
     \<Rightarrow> (string \<rightharpoonup> 'v) \<Rightarrow> real \<Rightarrow> int option \<Rightarrow> int option
     \<Rightarrow> error + ('e, 'f, 'v) propagator" where
  "init nstout_from_mdconfig conds cls kwargs walltime max_steps_arg max_frames_arg =
     (let traj_type = (case kwargs ''output_traj_type'' of
                         Some t \<Rightarrow> t
                       | None \<Rightarrow> output_traj_type cls)
      in and_then (case kwargs ''mdconfig'' of None \<Rightarrow> Inl KeyError | Some c \<Rightarrow> Inr c)
           (\<lambda>mdconfig.
         and_then (nstout_from_mdconfig mdconfig traj_type) (\<lambda>nstout.
           Inr \<lparr> conditions = conds,
                 condition_func_is_coroutine = map iscoroutinefunction conds,
                 engine_cls = cls,
                 engine_kwargs = kwargs,
                 walltime_per_part = walltime,
                 max_steps =
                   (case max_steps_arg of
                      Some s \<Rightarrow> Steps s
                    | None \<Rightarrow>
                        (case max_frames_arg of
                           Some f \<Rightarrow> Steps (f * nstout)
                         | None \<Rightarrow> Infinity)) \<rparr>)))"

text \<open>\<^verbatim>\<open>self._condition_vals_for_traj(traj)\<close> on a propagator.\<close>

definition cond_vals_on :: "('e, 'f, 'v) propagator \<Rightarrow> 'f traj \<Rightarrow> error + returned list" where
  "cond_vals_on p traj =
     condition_vals_for_traj (conditions p) (condition_func_is_coroutine p) traj"

text \<open>
  What \<^verbatim>\<open>propagate\<close> does to the world is recorded as a list of events, in order: the
  engine instance it creates, the calls of \<^verbatim>\<open>prepare\<close>, \<^verbatim>\<open>prepare_from_files\<close> and
  \<^verbatim>\<open>get_all_traj_parts\<close>, and each segment it requests with \<^verbatim>\<open>run_walltime\<close>.
\<close>

datatype event = EngineCreated | Prepared | GotTrajParts | PreparedFromFiles | RanWalltime

text \<open>
  The code after the loop of \<^verbatim>\<open>propagate\<close>: the error when no condition is fulfilled,
  else the index of the condition first fulfilled on the last segment.
\<close>

definition after_loop ::
  "('e, 'f, 'v) propagator \<Rightarrow> bool \<Rightarrow> returned list \<Rightarrow> 'f traj list \<Rightarrow> int
     \<Rightarrow> error + 'f traj list \<times> nat" where
  "after_loop p any_cond_fullfilled cond_vals trajs step_counter =
     (if \<not> any_cond_fullfilled
      then Inl (MaxStepsReachedError step_counter (max_steps p))
      else and_then (np_asarray cond_vals) (\<lambda>cv.
           and_then (first_fullfilled cv)
             (\<lambda>(first_condition_fullfilled, frame). Inr (trajs, first_condition_fullfilled))))"

text \<open>
  The loop of \<^verbatim>\<open>propagate\<close>:
  \<^verbatim>\<open>
  while ((not any_cond_fullfilled) and (step_counter <= self.max_steps)):
      traj = await engine.run_walltime(self.walltime_per_part)
      cond_vals = await self._condition_vals_for_traj(traj)
      any_cond_fullfilled = np.any(cond_vals)
      step_counter = engine.steps_done
      trajs.append(traj)
  \<close>
  followed by the code after it. The loop need not end (an unbounded budget and
  conditions that never hold), so the result is an option: \<open>None\<close> when it runs forever,
  else the events and the error or the returned pair.
\<close>

partial_function (option) propagate_loop ::
  "('e, 'f, 'v) propagator \<Rightarrow> 'e \<Rightarrow> bool \<Rightarrow> returned list \<Rightarrow> 'f traj list \<Rightarrow> int
     \<Rightarrow> event list \<Rightarrow> (event list \<times> (error + 'f traj list \<times> nat)) option" where
  "propagate_loop p engine any_cond_fullfilled cond_vals trajs step_counter events =
     (if \<not> any_cond_fullfilled \<and> within_limit step_counter (max_steps p)
      then
        (case run_walltime (engine_cls p) engine (walltime_per_part p) of
           (traj, engine') \<Rightarrow>
             (case cond_vals_on p traj of
                Inl e \<Rightarrow> Some (events @ [RanWalltime], Inl e)
              | Inr cond_vals' \<Rightarrow>
                  (case np_any cond_vals' of
                     Inl e \<Rightarrow> Some (events @ [RanWalltime], Inl e)
                   | Inr any_cond_fullfilled' \<Rightarrow>
                       propagate_loop p engine' any_cond_fullfilled' cond_vals'
                         (trajs @ [traj]) (steps_done (engine_cls p) engine')
                         (events @ [RanWalltime]))))
      else Some (events, after_loop p any_cond_fullfilled cond_vals trajs step_counter))"

declare propagate_loop.simps [code]

text \<open>
  \<^verbatim>\<open>propagate\<close>. \<^verbatim>\<open>get_all_traj_parts\<close> is imported from \<^verbatim>\<open>asyncmd/utils.py\<close> and is a
  parameter here: the trajectory parts found on disk for a folder, a deffnm and an
  engine. In the continuation branch \<^verbatim>\<open>cond_vals\<close> is rebound to the array
  \<^verbatim>\<open>np.concatenate\<close> returns; \<open>map Values\<close> passes its rows where the other branch passes the
  list of the evaluator.
\<close>

definition propagate ::
  "(string \<Rightarrow> string \<Rightarrow> 'e \<Rightarrow> 'f traj list) \<Rightarrow> ('e, 'f, 'v) propagator \<Rightarrow> 'f traj
     \<Rightarrow> string \<Rightarrow> string \<Rightarrow> bool
     \<Rightarrow> (event list \<times> (error + 'f traj list \<times> nat)) option" where
  "propagate get_all_traj_parts p starting_configuration workdir deffnm continuation =
     (case cond_vals_on p starting_configuration of
        Inl e \<Rightarrow> Some ([], Inl e)
      | Inr cond_vals \<Rightarrow>
          (case np_any cond_vals of
             Inl e \<Rightarrow> Some ([], Inl e)
           | Inr True \<Rightarrow>
               Some ([], and_then (np_asarray cond_vals) (\<lambda>cv.
                         and_then (first_fullfilled cv)
                           (\<lambda>(first_condition_fullfilled, frame).
                              Inr ([starting_configuration], first_condition_fullfilled))))
           | Inr False \<Rightarrow>
               (let engine = construct (engine_cls p) (engine_kwargs p)
                in if \<not> continuation
                   then
                     (let engine = prepare (engine_cls p) engine starting_configuration
                                     workdir deffnm
                      in propagate_loop p engine False cond_vals [] 0
                           [EngineCreated, Prepared])
                   else
                     (let trajs = get_all_traj_parts workdir deffnm engine
                      in case collect (map (cond_vals_on p) trajs) of
                           Inl e \<Rightarrow> Some ([EngineCreated, GotTrajParts], Inl e)
                         | Inr vals \<Rightarrow>
                             (case np_concatenate_axis1 vals of
                                Inl e \<Rightarrow> Some ([EngineCreated, GotTrajParts], Inl e)
                              | Inr cond_vals \<Rightarrow>
                                  (case np_any (map Values cond_vals) of
                                     Inl e \<Rightarrow> Some ([EngineCreated, GotTrajParts], Inl e)
                                   | Inr True \<Rightarrow>
                                       Some ([EngineCreated, GotTrajParts],
                                             and_then (first_fullfilled cond_vals)
                                               (\<lambda>(first_condition_fullfilled, frame).
                                                  Inr (trajs, first_condition_fullfilled)))
                                   | Inr False \<Rightarrow>
                                       (let engine = prepare_from_files (engine_cls p) engine
                                                       workdir deffnm
                                        in propagate_loop p engine False (map Values cond_vals)
                                             trajs
                                             (steps_done (engine_cls p) engine)
                                             [EngineCreated, GotTrajParts,
                                              PreparedFromFiles])))))))"

section \<open>The evaluator with its calls made explicit\<close>

text \<open>
  \<^verbatim>\<open>asyncio.gather\<close> with the order in which its awaitables complete made explicit:
  \<open>aws\<close> lists what each awaitable gives when it finishes, \<open>order\<close> lists the positions
  of the awaitables in the order they finish, each result is stored in the slot of its
  awaitable, and the call returns once every slot is filled, with the slots in the
  order of the awaitables. It never returns (\<open>None\<close>) when an awaitable never completes.
\<close>

fun fill_results :: "nat list \<Rightarrow> 'a list \<Rightarrow> 'a option list \<Rightarrow> 'a option list" where
  "fill_results [] aws slots = slots"
| "fill_results (k # ks) aws slots = fill_results ks aws (slots[k := Some (aws ! k)])"

definition gather_completing :: "nat list \<Rightarrow> 'a list \<Rightarrow> 'a list option" where
  "gather_completing order aws =
     (let slots = fill_results order aws (replicate (length aws) None)
      in if list_all (\<lambda>s. s \<noteq> None) slots then Some (map the slots) else None)"







section \<open>Notions used in the statements\<close>

text \<open>Row-major order on (row, column) pairs, the order in which \<^verbatim>\<open>np.where\<close> lists them.\<close>

definition rowmajor :: "nat \<times> nat \<Rightarrow> nat \<times> nat \<Rightarrow> bool" where
  "rowmajor a b = (fst a < fst b \<or> (fst a = fst b \<and> snd a < snd b))"

text \<open>
  The values of condition \<open>c\<close> along the concatenated frame axis of a list of segment
  matrices: global frame \<open>g\<close> of the axis is frame \<open>f\<close> of segment \<open>i\<close> when \<open>g\<close> is the
  sum of the lengths of the segments before \<open>i\<close> plus \<open>f\<close>.
\<close>

definition frame_axis :: "cond_matrix list \<Rightarrow> nat \<Rightarrow> bool list" where
  "frame_axis cond_vals c = concat (map (\<lambda>a. a ! c) cond_vals)"

text \<open>
  Consistent condition matrices: at least one segment, at least one condition, every
  segment's matrix has one row per condition and rows of one common length (the
  segment's frame count).
\<close>

definition consistent :: "nat \<Rightarrow> cond_matrix list \<Rightarrow> bool" where
  "consistent n cond_vals =
     (cond_vals \<noteq> [] \<and> 0 < n \<and> list_all (\<lambda>a. rectangular a \<and> length a = n) cond_vals)"

text \<open>
  The state values of a chain (one vector per segment) are first true at local frame
  \<open>m\<close> of segment \<open>j\<close>: no earlier segment has a true entry, and segment \<open>j\<close> has none
  before \<open>m\<close>.
\<close>

definition first_true_at :: "bool list list \<Rightarrow> nat \<Rightarrow> nat \<Rightarrow> bool" where
  "first_true_at vs j m =
     (j < length vs \<and> m < length (vs ! j) \<and> vs ! j ! m \<and>
      (\<forall>f < m. \<not> vs ! j ! f) \<and> (\<forall>i < j. \<forall>f < length (vs ! i). \<not> vs ! i ! f))"

text \<open>
  A condition yields its values to the evaluator when it is a blocking callable, which
  is called where it stands, or an object whose \<^verbatim>\<open>__call__\<close> is a coroutine function,
  which is gathered. A plain coroutine function is flagged as blocking, and the
  coroutine object its call returns is never awaited.
\<close>

fun yields_values :: "'f condition \<Rightarrow> bool" where
  "yields_values (Blocking f) = True"
| "yields_values (Coroutine f) = True"
| "yields_values (AsyncDef f) = False"

text \<open>
  What the evaluator holds for a condition flagged by the setter: its values, or the
  coroutine object that was never awaited.
\<close>

definition stored :: "'f condition \<Rightarrow> 'f traj \<Rightarrow> returned" where
  "stored c traj = (if yields_values c then Values (call c traj) else Unawaited (call c traj))"

text \<open>
  Every condition of the propagator yields its values and reports one value per frame
  of the trajectory, and some condition of the propagator is true on some frame of the
  trajectory.
\<close>

definition per_frame :: "('e, 'f, 'v) propagator \<Rightarrow> 'f traj \<Rightarrow> bool" where
  "per_frame p traj =
     list_all (\<lambda>c. yields_values c \<and> length (call c traj) = length traj) (conditions p)"

definition holds_on :: "('e, 'f, 'v) propagator \<Rightarrow> 'f traj \<Rightarrow> bool" where
  "holds_on p traj = list_ex (\<lambda>c. list_ex id (call c traj)) (conditions p)"

text \<open>
  The engine after \<open>k\<close> calls of \<^verbatim>\<open>run_walltime\<close> from the engine \<open>e\<close>, the segment the
  call number \<open>k\<close> (counting from 0) returns, and the value of \<^verbatim>\<open>step_counter\<close> after
  \<open>k\<close> calls when it is \<open>c0\<close> before the first: \<^verbatim>\<open>engine.steps_done\<close> as soon as one
  call has been made.
\<close>

fun engine_after :: "('e, 'f, 'v) propagator \<Rightarrow> 'e \<Rightarrow> nat \<Rightarrow> 'e" where
  "engine_after p e 0 = e"
| "engine_after p e (Suc k) =
     snd (run_walltime (engine_cls p) (engine_after p e k) (walltime_per_part p))"

definition segment :: "('e, 'f, 'v) propagator \<Rightarrow> 'e \<Rightarrow> nat \<Rightarrow> 'f traj" where
  "segment p e k = fst (run_walltime (engine_cls p) (engine_after p e k) (walltime_per_part p))"

definition step_count :: "('e, 'f, 'v) propagator \<Rightarrow> 'e \<Rightarrow> int \<Rightarrow> nat \<Rightarrow> int" where
  "step_count p e c0 k =
     (if k = 0 then c0 else steps_done (engine_cls p) (engine_after p e k))"

text \<open>
  The parts \<^verbatim>\<open>propagate\<close> recovers on a continuation, from the engine it has just
  created, and the values of condition \<open>i\<close> along the frames of a list of segments.
\<close>

definition recovered ::
  "(string \<Rightarrow> string \<Rightarrow> 'e \<Rightarrow> 'f traj list) \<Rightarrow> ('e, 'f, 'v) propagator \<Rightarrow> string \<Rightarrow> string
     \<Rightarrow> 'f traj list" where
  "recovered get_all_traj_parts p workdir deffnm =
     get_all_traj_parts workdir deffnm (construct (engine_cls p) (engine_kwargs p))"

definition values_along :: "('e, 'f, 'v) propagator \<Rightarrow> 'f traj list \<Rightarrow> nat \<Rightarrow> bool list" where
  "values_along p trajs i = concat (map (\<lambda>t. call (conditions p ! i) t) trajs)"

text \<open>
  The state in which \<^verbatim>\<open>propagate\<close> reaches its loop: the engine, prepared from the
  starting configuration or from the files of the run, the step counter, \<open>0\<close> or the
  steps the engine has done, and the events up to there.
\<close>

definition loop_engine ::
  "('e, 'f, 'v) propagator \<Rightarrow> 'f traj \<Rightarrow> string \<Rightarrow> string \<Rightarrow> bool \<Rightarrow> 'e" where
  "loop_engine p starting_configuration workdir deffnm continuation =
     (if continuation
      then prepare_from_files (engine_cls p) (construct (engine_cls p) (engine_kwargs p))
             workdir deffnm
      else prepare (engine_cls p) (construct (engine_cls p) (engine_kwargs p))
             starting_configuration workdir deffnm)"

definition loop_counter ::
  "('e, 'f, 'v) propagator \<Rightarrow> 'f traj \<Rightarrow> string \<Rightarrow> string \<Rightarrow> bool \<Rightarrow> int" where
  "loop_counter p starting_configuration workdir deffnm continuation =
     (if continuation
      then steps_done (engine_cls p)
             (loop_engine p starting_configuration workdir deffnm continuation)
      else 0)"

definition loop_events :: "bool \<Rightarrow> event list" where
  "loop_events continuation =
     (if continuation then [EngineCreated, GotTrajParts, PreparedFromFiles]
      else [EngineCreated, Prepared])"

section \<open>Properties\<close>


lemma argmin_from_spec:
  assumes "i = length pre" "best_idx < i" "pre ! best_idx = best"
    and "\<forall>j < i. best \<le> pre ! j" "\<forall>j < best_idx. best < pre ! j"
  shows "argmin_from xs i best_idx best < length (pre @ xs) \<and>
         (\<forall>j < length (pre @ xs). (pre @ xs) ! argmin_from xs i best_idx best \<le> (pre @ xs) ! j) \<and>
         (\<forall>j < argmin_from xs i best_idx best.
             (pre @ xs) ! argmin_from xs i best_idx best < (pre @ xs) ! j)"
  using assms
proof (induction xs arbitrary: pre i best_idx best)
  case Nil
  then show ?case by simp
next
  case (Cons x xs)
  show ?case
  proof (cases "x < best")
    case True
    have a: "Suc i = length (pre @ [x])" using Cons.prems by simp
    have b: "i < Suc i" by simp
    have c: "(pre @ [x]) ! i = x" using Cons.prems by simp
    have lt: "x < pre ! j" if "j < i" for j
    proof -
      have "best \<le> pre ! j" using Cons.prems(4) that by blast
      with True show ?thesis by simp
    qed
    have d: "\<forall>j < Suc i. x \<le> (pre @ [x]) ! j"
      using lt Cons.prems(1) by (auto simp: nth_append less_Suc_eq intro: less_imp_le)
    have e: "\<forall>j < i. x < (pre @ [x]) ! j"
      using lt Cons.prems(1) by (auto simp: nth_append)
    from Cons.IH[OF a b c d e] True show ?thesis by simp
  next
    case False
    have a: "Suc i = length (pre @ [x])" using Cons.prems by simp
    have b: "best_idx < Suc i" using Cons.prems by simp
    have c: "(pre @ [x]) ! best_idx = best" using Cons.prems by (simp add: nth_append)
    have d: "\<forall>j < Suc i. best \<le> (pre @ [x]) ! j"
      using Cons.prems False by (auto simp: nth_append less_Suc_eq)
    have e: "\<forall>j < best_idx. best < (pre @ [x]) ! j"
      using Cons.prems False by (auto simp: nth_append)
    from Cons.IH[OF a b c d e] False show ?thesis by simp
  qed
qed

lemma np_argmin_spec:
  assumes "xs \<noteq> []"
  shows "\<exists>k. np_argmin xs = Inr k \<and> k < length xs \<and>
             (\<forall>j < length xs. xs ! k \<le> xs ! j) \<and> (\<forall>j < k. xs ! k < xs ! j)"
proof -
  obtain x rest where xs: "xs = x # rest" using assms by (cases xs) auto
  have "argmin_from rest 1 0 x < length ([x] @ rest) \<and>
         (\<forall>j < length ([x] @ rest). ([x] @ rest) ! argmin_from rest 1 0 x \<le> ([x] @ rest) ! j) \<and>
         (\<forall>j < argmin_from rest 1 0 x.
             ([x] @ rest) ! argmin_from rest 1 0 x < ([x] @ rest) ! j)"
    by (rule argmin_from_spec) auto
  then show ?thesis by (simp add: np_argmin_def xs)
qed

lemma set_np_where1: "set (np_where1 v) = {j. j < length v \<and> v ! j}"
  by (auto simp: np_where1_def)

lemma sorted_np_where1: "sorted_wrt (<) (np_where1 v)"
  by (simp add: np_where1_def sorted_wrt_filter)


lemma set_np_where2:
  "set (np_where2 c) = {(i, j). i < length c \<and> j < length (c ! i) \<and> c ! i ! j}"
  by (auto simp: np_where2_def set_np_where1)

lemma sorted_np_where2_upto:
  "sorted_wrt rowmajor (concat (map (\<lambda>i. map (\<lambda>j. (i, j)) (np_where1 (c ! i))) [0..<n]))"
proof (induction n)
  case 0
  then show ?case by simp
next
  case (Suc n)
  have row: "sorted_wrt rowmajor (map (\<lambda>j. (n, j)) (np_where1 (c ! n)))"
    using sorted_np_where1[of "c ! n"] by (simp add: sorted_wrt_map rowmajor_def)
  have cross: "rowmajor a b"
    if "a \<in> set (concat (map (\<lambda>i. map (\<lambda>j. (i, j)) (np_where1 (c ! i))) [0..<n]))"
      and "b \<in> set (map (\<lambda>j. (n, j)) (np_where1 (c ! n)))" for a b
    using that by (auto simp: rowmajor_def)
  from Suc row cross show ?case
    by (simp add: sorted_wrt_append)
qed

lemma sorted_np_where2: "sorted_wrt rowmajor (np_where2 c)"
  using sorted_np_where2_upto[of c "length c"] by (simp add: np_where2_def)

lemma first_fullfilled_none:
  assumes "\<not> (\<exists>i j. i < length c \<and> j < length (c ! i) \<and> c ! i ! j)"
  shows "first_fullfilled c = Inl ValueError"
proof -
  have "set (np_where2 c) = {}" using assms by (auto simp: set_np_where2)
  then show ?thesis by (simp add: first_fullfilled_def np_argmin_def and_then_def)
qed

lemma first_fullfilled_some:
  assumes "i0 < length c" "j0 < length (c ! i0)" "c ! i0 ! j0"
  shows "\<exists>cf f. first_fullfilled c = Inr (cf, f) \<and> cf < length c \<and> f < length (c ! cf) \<and>
           c ! cf ! f \<and>
           (\<forall>i j. i < length c \<and> j < length (c ! i) \<and> c ! i ! j \<longrightarrow>
                   f \<le> j \<and> (j = f \<longrightarrow> cf \<le> i))"
proof -
  let ?w = "np_where2 c"
  have mem: "(i0, j0) \<in> set ?w" using assms by (simp add: set_np_where2)
  then have ne: "map snd ?w \<noteq> []" by auto
  from np_argmin_spec[OF ne] obtain k where k:
    "np_argmin (map snd ?w) = Inr k" "k < length ?w"
    "\<forall>j < length ?w. snd (?w ! k) \<le> snd (?w ! j)"
    "\<forall>j < k. snd (?w ! k) < snd (?w ! j)"
    by auto
  have ff: "first_fullfilled c = Inr (fst (?w ! k), snd (?w ! k))"
    using k(1,2) by (simp add: first_fullfilled_def and_then_def Let_def)
  have "?w ! k \<in> set ?w" using k(2) by simp
  then have in_c: "fst (?w ! k) < length c" "snd (?w ! k) < length (c ! fst (?w ! k))"
    "c ! fst (?w ! k) ! snd (?w ! k)"
    by (auto simp: set_np_where2 split_beta)
  have least: "snd (?w ! k) \<le> j \<and> (j = snd (?w ! k) \<longrightarrow> fst (?w ! k) \<le> i)"
    if "i < length c" "j < length (c ! i)" "c ! i ! j" for i j
  proof -
    have "(i, j) \<in> set ?w" using that by (simp add: set_np_where2)
    then obtain k' where k': "k' < length ?w" "?w ! k' = (i, j)"
      by (auto simp: in_set_conv_nth)
    have le: "snd (?w ! k) \<le> j" using k(3) k' by force
    have "fst (?w ! k) \<le> i" if eq: "j = snd (?w ! k)"
    proof (cases "k' < k")
      case True
      then show ?thesis using k(4) k' eq by force
    next
      case False
      show ?thesis
      proof (cases "k' = k")
        case True
        then show ?thesis using k' by simp
      next
        case False
        with \<open>\<not> k' < k\<close> have "k < k'" by simp
        then have "rowmajor (?w ! k) (?w ! k')"
          using sorted_np_where2[of c] k'(1) by (simp add: sorted_wrt_iff_nth_less)
        then show ?thesis using k' eq by (auto simp: rowmajor_def)
      qed
    qed
    with le show ?thesis by simp
  qed
  show ?thesis using ff in_c least by blast
qed

lemma sum_take_Suc:
  "k < length (pl :: nat list) \<Longrightarrow> sum_list (take (Suc k) pl)  = sum_list (take k pl) + pl ! k"
  by (simp add: take_Suc_conv_app_nth)

lemma sum_take_le: "sum_list (take k (pl :: nat list)) \<le> sum_list pl"
proof -
  have "sum_list pl = sum_list (take k pl) + sum_list (drop k pl)"
    by (metis append_take_drop_id sum_list_append)
  then show ?thesis by simp
qed

lemma find_part_loop_spec:
  assumes "idx < length pl" "fsum = sum_list (take (Suc idx) pl)"
    and "sum_list (take idx pl) \<le> ff" "ff < sum_list pl"
  shows "\<exists>k. find_part_loop pl ff idx fsum = Inr k \<and> k < length pl \<and>
             sum_list (take k pl) \<le> ff \<and> ff < sum_list (take (Suc k) pl)"
  using assms
proof (induction pl ff idx fsum rule: find_part_loop.induct)
  case (1 part_lens first_frame last_part_idx frame_sum)
  show ?case
  proof (cases "first_frame \<ge> frame_sum")
    case False
    then show ?thesis
      using "1.prems" by (subst find_part_loop.simps) simp
  next
    case True
    have more: "Suc last_part_idx < length part_lens"
    proof (rule ccontr)
      assume "\<not> Suc last_part_idx < length part_lens"
      then have "take (Suc last_part_idx) part_lens = part_lens" by simp
      with "1.prems" True show False by simp
    qed
    have fs: "frame_sum + part_lens ! Suc last_part_idx
                = sum_list (take (Suc (Suc last_part_idx)) part_lens)"
      using "1.prems"(2) more by (simp add: sum_take_Suc)
    have le: "sum_list (take (Suc last_part_idx) part_lens) \<le> first_frame"
      using True "1.prems"(2) by simp
    from "1.IH"[OF True more more fs le "1.prems"(4)] True more
    show ?thesis by (subst find_part_loop.simps) simp
  qed
qed

lemma find_part_spec:
  assumes "ff < sum_list pl"
  shows "\<exists>k. find_part pl ff = Inr k \<and> k < length pl \<and>
             sum_list (take k pl) \<le> ff \<and> ff < sum_list (take (Suc k) pl)"
proof -
  obtain l rest where pl: "pl = l # rest" using assms by (cases pl) auto
  have "\<exists>k. find_part_loop pl ff 0 l = Inr k \<and> k < length pl \<and>
             sum_list (take k pl) \<le> ff \<and> ff < sum_list (take (Suc k) pl)"
    by (rule find_part_loop_spec) (use assms pl in auto)
  then show ?thesis by (simp add: find_part_def pl)
qed

lemma nth_concat_part:
  "k < length xs \<Longrightarrow> sum_list (map length (take k xs)) \<le> g \<Longrightarrow>
   g < sum_list (map length (take (Suc k) xs)) \<Longrightarrow>
   concat xs ! g = xs ! k ! (g - sum_list (map length (take k xs)))"
proof (induction xs arbitrary: k g)
  case Nil
  then show ?case by simp
next
  case (Cons x xs)
  show ?case
  proof (cases k)
    case 0
    with Cons.prems show ?thesis by (simp add: nth_append)
  next
    case (Suc k')
    with Cons.prems have "concat xs ! (g - length x)
        = xs ! k' ! (g - length x - sum_list (map length (take k' xs)))"
      by (intro Cons.IH) auto
    with Suc Cons.prems show ?thesis by (simp add: nth_append)
  qed
qed

lemma collect_all_Inr: "collect (map Inr xs) = Inr xs"
  by (induction xs) auto

lemma collect_map_Inr:
  "(\<And>x. x \<in> set xs \<Longrightarrow> f x = Inr (g x)) \<Longrightarrow> collect (map f xs) = Inr (map g xs)"
  by (induction xs) auto

lemma rectangular_nth:
  "rectangular a \<Longrightarrow> i < length a \<Longrightarrow> length (a ! i) = length (hd a)"
  by (simp add: rectangular_def list_all_length)

lemma np_asarray_Values:
  "np_asarray (map Values a) = (if rectangular a then Inr a else Inl ValueError)"
proof -
  have "collect (map truth_values (map Values a)) = Inr (map (\<lambda>r. r) a)"
    unfolding map_map by (rule collect_map_Inr) simp
  then show ?thesis by (simp add: np_asarray_def and_then_def)
qed

lemma np_concatenate_axis1_ok:
  assumes "cs \<noteq> []" "\<And>a. a \<in> set cs \<Longrightarrow> rectangular a \<and> length a = n" "0 < n"
  shows "np_concatenate_axis1 (map (map Values) cs)
           = Inr (map (\<lambda>i. concat (map (\<lambda>a. a ! i) cs)) [0..<n])"
proof -
  have "collect (map np_asarray (map (map Values) cs)) = Inr (map (\<lambda>a. a) cs)"
    unfolding map_map by (rule collect_map_Inr) (use assms in \<open>simp add: np_asarray_Values\<close>)
  then have c: "collect (map np_asarray (map (map Values) cs)) = Inr cs" by simp
  have hd: "length (hd cs) = n" using assms by (cases cs) auto
  have e: "\<not> list_ex (\<lambda>a. a = []) cs" using assms by (auto simp: list_ex_iff)
  have d: "\<not> list_ex (\<lambda>a. length a \<noteq> length (hd cs)) cs"
    using assms hd by (auto simp: list_ex_iff)
  show ?thesis
    using c assms(1) hd d e by (simp add: np_concatenate_axis1_def and_then_def)
qed

lemma part_lens_ok:
  assumes "\<And>a. a \<in> set cs \<Longrightarrow> length a = n" "0 < n"
  shows "collect (map part_len (map (map Values) cs)) = Inr (map (\<lambda>a. length (hd a)) cs)"
  unfolding map_map
proof (rule collect_map_Inr)
  fix a assume "a \<in> set cs"
  then have "a \<noteq> []" using assms by auto
  then show "(part_len \<circ> map Values) a = Inr (length (hd a))"
    by (cases a) (auto simp: part_len_def)
qed

lemma length_row:
  assumes "\<And>a. a \<in> set cs \<Longrightarrow> rectangular a \<and> length a = n" "i < n"
  shows "map length (map (\<lambda>a. a ! i) cs) = map (\<lambda>a. length (hd a)) cs"
  using assms by (auto simp: rectangular_nth)


lemma consistentD:
  assumes "consistent n cs"
  shows "cs \<noteq> []" "0 < n" "\<And>a. a \<in> set cs \<Longrightarrow> rectangular a \<and> length a = n"
  using assms by (auto simp: consistent_def list_all_iff)

lemma length_frame_axis:
  assumes "consistent n cs" "c < n"
  shows "length (frame_axis cs c) = sum_list (map (\<lambda>a. length (hd a)) cs)"
proof -
  have eq: "map (\<lambda>a. length (a ! c)) cs = map (\<lambda>a. length (hd a)) cs"
    using consistentD(3)[OF assms(1)] assms(2) by (auto simp: rectangular_nth)
  have "length (frame_axis cs c) = sum_list (map (\<lambda>a. length (a ! c)) cs)"
    by (simp add: frame_axis_def length_concat comp_def)
  also have "\<dots> = sum_list (map (\<lambda>a. length (hd a)) cs)"
    by (simp only: eq)
  finally show ?thesis .
qed

lemma locate_spec:
  assumes con: "consistent n cond_vals"
    and tr: "c0 < n" "g0 < length (frame_axis cond_vals c0)" "frame_axis cond_vals c0 ! g0"
  shows "\<exists>cond g part loc.
           locate (map (map Values) cond_vals) = Inr (cond, g, part, loc) \<and>
           cond < n \<and> g < length (frame_axis cond_vals cond) \<and> frame_axis cond_vals cond ! g \<and>
           (\<forall>c' g'. c' < n \<and> g' < length (frame_axis cond_vals c') \<and> frame_axis cond_vals c' ! g'
                \<longrightarrow> g \<le> g' \<and> (g' = g \<longrightarrow> cond \<le> c')) \<and>
           part < length cond_vals \<and> 0 \<le> loc \<and> loc < int (length (hd (cond_vals ! part))) \<and>
           int (sum_list (map (\<lambda>a. length (hd a)) (take part cond_vals))) + loc = int g \<and>
           cond_vals ! part ! cond ! nat loc"
proof -
  let ?pl = "map (\<lambda>a. length (hd a)) cond_vals"
  let ?M = "map (\<lambda>i. frame_axis cond_vals i) [0..<n]"
  note cd = consistentD[OF con]
  have pl: "collect (map part_len (map (map Values) cond_vals)) = Inr ?pl"
    by (rule part_lens_ok[where n = n]) (use cd in auto)
  have cat: "np_concatenate_axis1 (map (map Values) cond_vals) = Inr ?M"
    unfolding frame_axis_def by (rule np_concatenate_axis1_ok) (use cd in auto)
  have M: "length ?M = n" "\<And>i. i < n \<Longrightarrow> ?M ! i = frame_axis cond_vals i" by auto
  have "\<exists>cf f. first_fullfilled ?M = Inr (cf, f) \<and> cf < length ?M \<and> f < length (?M ! cf) \<and>
           ?M ! cf ! f \<and>
           (\<forall>i j. i < length ?M \<and> j < length (?M ! i) \<and> ?M ! i ! j \<longrightarrow>
                   f \<le> j \<and> (j = f \<longrightarrow> cf \<le> i))"
    by (rule first_fullfilled_some[of c0 _ g0]) (use tr M in auto)
  then obtain cf f where raw: "first_fullfilled ?M = Inr (cf, f)" "cf < length ?M"
    "f < length (?M ! cf)" "?M ! cf ! f"
    "\<forall>i j. i < length ?M \<and> j < length (?M ! i) \<and> ?M ! i ! j \<longrightarrow>
                   f \<le> j \<and> (j = f \<longrightarrow> cf \<le> i)"
    by blast
  have ff: "first_fullfilled ?M = Inr (cf, f)" "cf < n"
    "f < length (frame_axis cond_vals cf)" "frame_axis cond_vals cf ! f"
    using raw(1-4) by auto
  have least: "f \<le> j \<and> (j = f \<longrightarrow> cf \<le> i)"
    if "i < n" "j < length (frame_axis cond_vals i)" "frame_axis cond_vals i ! j" for i j
  proof -
    have "i < length ?M \<and> j < length (?M ! i) \<and> ?M ! i ! j" using that by simp
    with raw(5) show ?thesis by blast
  qed
  have tot: "f < sum_list ?pl" using ff(3) length_frame_axis[OF con ff(2)] by simp
  from find_part_spec[OF tot] obtain k where k: "find_part ?pl f = Inr k" "k < length cond_vals"
    "sum_list (take k ?pl) \<le> f" "f < sum_list (take (Suc k) ?pl)"
    by auto
  let ?loc = "local_frame ?pl f k"
  have loc: "?loc = int (f - sum_list (take k ?pl))"
    using k(3) by (simp add: local_frame_def)
  have lc: "locate (map (map Values) cond_vals) = Inr (cf, f, k, ?loc)"
    by (simp add: locate_def pl[unfolded map_map] cat ff(1) k(1) and_then_def)
  have lk: "sum_list (take (Suc k) ?pl) = sum_list (take k ?pl) + length (hd (cond_vals ! k))"
    using k(2) by (simp add: sum_take_Suc)
  have rows: "map length (map (\<lambda>a. a ! cf) cond_vals) = ?pl"
    by (rule length_row[where n = n]) (use cd ff(2) in auto)
  have tk: "map length (take j (map (\<lambda>a. a ! cf) cond_vals)) = take j ?pl" for j
    using rows by (metis take_map)
  have "concat (map (\<lambda>a. a ! cf) cond_vals) ! f
          = map (\<lambda>a. a ! cf) cond_vals ! k
              ! (f - sum_list (map length (take k (map (\<lambda>a. a ! cf) cond_vals))))"
    by (rule nth_concat_part) (use k tk in auto)
  then have entry: "cond_vals ! k ! cf ! (f - sum_list (take k ?pl))"
    using ff(4) k(2) tk by (simp add: frame_axis_def)
  have nl: "nat ?loc = f - sum_list (take k ?pl)" using loc by simp
  have b1: "0 \<le> ?loc" using loc by simp
  have b2: "?loc < int (length (hd (cond_vals ! k)))" using loc k(3,4) lk by simp
  have b3: "int (sum_list (map (\<lambda>a. length (hd a)) (take k cond_vals))) + ?loc = int f"
    using loc k(3) by (simp add: take_map)
  have b4: "cond_vals ! k ! cf ! nat ?loc" using entry nl by simp
  have "cf < n \<and> f < length (frame_axis cond_vals cf) \<and> frame_axis cond_vals cf ! f \<and>
        (\<forall>c' g'. c' < n \<and> g' < length (frame_axis cond_vals c') \<and> frame_axis cond_vals c' ! g'
                \<longrightarrow> f \<le> g' \<and> (g' = f \<longrightarrow> cf \<le> c')) \<and>
        k < length cond_vals \<and> 0 \<le> ?loc \<and> ?loc < int (length (hd (cond_vals ! k))) \<and>
        int (sum_list (map (\<lambda>a. length (hd a)) (take k cond_vals))) + ?loc = int f \<and>
        cond_vals ! k ! cf ! nat ?loc"
    using ff(2,3,4) least k(2) b1 b2 b3 b4 by blast
  with lc show ?thesis by blast
qed


lemma py_range_forward: "py_range 0 m 1 = map int [0..<nat m]"
  by (simp add: py_range_def)

lemma map_nth_upt_take: "m \<le> length xs \<Longrightarrow> map (\<lambda>i. xs ! i) [0..<m] = take m xs"
  by (metis add_0 map_nth take_map take_upt)

lemma py_slice_full: "py_slice xs (0, None, 1) = Inr xs"
  by (simp add: py_slice_def slice_indices_def slice_bound_def and_then_def py_range_forward
        comp_def map_nth)

lemma py_slice_prefix:
  assumes "0 \<le> e"
  shows "py_slice xs (0, Some e, 1) = Inr (take (nat e) xs)"
proof (cases "e \<le> int (length xs)")
  case True
  then have "slice_indices (length xs) (0, Some e, 1) = Inr (map int [0..<nat e])"
    using assms by (simp add: slice_indices_def slice_bound_def py_range_forward)
  moreover have "map (\<lambda>i. xs ! i) [0..<nat e] = take (nat e) xs"
    by (rule map_nth_upt_take) (use True in simp)
  ultimately show ?thesis by (simp add: py_slice_def and_then_def comp_def)
next
  case False
  then have "slice_indices (length xs) (0, Some e, 1) = Inr (map int [0..<length xs])"
    using assms by (simp add: slice_indices_def slice_bound_def py_range_forward)
  then show ?thesis using False by (simp add: py_slice_def and_then_def comp_def map_nth)
qed

lemma collect_append:
  "collect rs = Inr xs \<Longrightarrow> collect ss = Inr ys \<Longrightarrow> collect (rs @ ss) = Inr (xs @ ys)"
  by (induction rs arbitrary: xs) (auto split: sum.splits)

lemma collect_length: "collect rs = Inr xs \<Longrightarrow> length xs = length rs"
  by (induction rs arbitrary: xs) (auto split: sum.splits)

lemma collect_nth: "collect rs = Inr xs \<Longrightarrow> i < length rs \<Longrightarrow> rs ! i = Inr (xs ! i)"
proof (induction rs arbitrary: xs i)
  case Nil
  then show ?case by simp
next
  case (Cons r rs)
  then show ?case by (cases i) (auto split: sum.splits)
qed

lemma cut_slices_replicate:
  "cut_slices part loc = replicate part (0, None, 1) @ [(0, Some (loc + 1), 1)]"
  by (simp add: cut_slices_def map_replicate_const)

lemma concatenate_full_parts:
  "collect (map (\<lambda>(t, s). py_slice t s) (zip ts (replicate (length ts) (0, None, 1)))) = Inr ts"
proof (induction ts)
  case Nil
  then show ?case by simp
next
  case (Cons t ts)
  then show ?case by (simp add: py_slice_full)
qed

lemma concatenate_cut:
  assumes "part < length trajs" "0 \<le> loc"
  shows "concatenate (take (part + 1) trajs) (cut_slices part loc)
           = Inr (concat (take part trajs) @ take (nat loc + 1) (trajs ! part))"
proof -
  have tk: "take (part + 1) trajs = take part trajs @ [trajs ! part]"
    using assms(1) by (simp add: take_Suc_conv_app_nth)
  have len: "length (take part trajs) = part" using assms(1) by simp
  have z: "zip (take (part + 1) trajs) (cut_slices part loc)
             = zip (take part trajs) (replicate (length (take part trajs)) (0, None, 1))
               @ [(trajs ! part, (0, Some (loc + 1), 1))]"
    unfolding tk cut_slices_replicate using len by simp
  have a: "collect (map (\<lambda>(t, s). py_slice t s)
             (zip (take part trajs) (replicate (length (take part trajs)) (0, None, 1))))
           = Inr (take part trajs)"
    by (rule concatenate_full_parts)
  have b: "collect (map (\<lambda>(t, s). py_slice t s) [(trajs ! part, (0, Some (loc + 1), 1))])
           = Inr [take (nat loc + 1) (trajs ! part)]"
    using assms(2) by (simp add: py_slice_prefix nat_add_distrib)
  have "collect (map (\<lambda>(t, s). py_slice t s) (zip (take (part + 1) trajs) (cut_slices part loc)))
          = Inr (take part trajs @ [take (nat loc + 1) (trajs ! part)])"
    unfolding z map_append by (rule collect_append[OF a b])
  then show ?thesis by (simp add: concatenate_def and_then_def)
qed


lemma find_part_loop_sound:
  assumes "idx < length pl" "fsum = sum_list (take (Suc idx) pl)"
    and "sum_list (take idx pl) \<le> ff" "find_part_loop pl ff idx fsum = Inr k"
  shows "k < length pl \<and> sum_list (take k pl) \<le> ff \<and> ff < sum_list (take (Suc k) pl)"
  using assms
proof (induction pl ff idx fsum rule: find_part_loop.induct)
  case (1 part_lens first_frame last_part_idx frame_sum)
  show ?case
  proof (cases "first_frame \<ge> frame_sum")
    case False
    have "find_part_loop part_lens first_frame last_part_idx frame_sum = Inr last_part_idx"
      using False by (subst find_part_loop.simps) simp
    with "1.prems" False show ?thesis by simp
  next
    case True
    have more: "Suc last_part_idx < length part_lens"
    proof (rule ccontr)
      assume "\<not> Suc last_part_idx < length part_lens"
      with True have "find_part_loop part_lens first_frame last_part_idx frame_sum = Inl IndexError"
        by (subst find_part_loop.simps) simp
      with "1.prems"(4) show False by simp
    qed
    have fs: "frame_sum + part_lens ! Suc last_part_idx
                = sum_list (take (Suc (Suc last_part_idx)) part_lens)"
      using "1.prems"(2) more by (simp add: sum_take_Suc)
    have le: "sum_list (take (Suc last_part_idx) part_lens) \<le> first_frame"
      using True "1.prems"(2) by simp
    have r: "find_part_loop part_lens first_frame (Suc last_part_idx)
               (frame_sum + part_lens ! Suc last_part_idx) = Inr k"
      using "1.prems"(4) True more by (subst (asm) find_part_loop.simps) simp
    from "1.IH"[OF True more more fs le r] show ?thesis .
  qed
qed

lemma find_part_sound:
  assumes "find_part pl ff = Inr k"
  shows "k < length pl \<and> sum_list (take k pl) \<le> ff \<and> ff < sum_list (take (Suc k) pl)"
proof -
  obtain l rest where pl: "pl = l # rest"
    using assms by (cases pl) (auto simp: find_part_def)
  have r: "find_part_loop pl ff 0 l = Inr k" using assms by (simp add: find_part_def pl)
  show ?thesis
    by (rule find_part_loop_sound[OF _ _ _ r]) (simp_all add: pl)
qed

lemma and_then_Inr:
  "and_then r f = Inr y \<Longrightarrow> \<exists>x. r = Inr x \<and> f x = Inr y"
  by (cases r) (auto simp: and_then_def)

lemma locate_sound:
  assumes "locate cond_vals = Inr (cond, g, part, loc)"
  shows "part < length cond_vals \<and> 0 \<le> loc"
proof -
  from assms obtain part_lens where pl: "collect (map part_len cond_vals) = Inr part_lens"
    and r1: "and_then (np_concatenate_axis1 cond_vals) (\<lambda>cv.
     and_then (first_fullfilled cv) (\<lambda>(first_condition_fullfilled, first_frame_in_cond).
     and_then (find_part part_lens first_frame_in_cond) (\<lambda>last_part_idx.
       Inr (first_condition_fullfilled, first_frame_in_cond, last_part_idx,
            local_frame part_lens first_frame_in_cond last_part_idx)))) = Inr (cond, g, part, loc)"
    unfolding locate_def by (blast dest: and_then_Inr)
  from r1 obtain cv where r2: "and_then (first_fullfilled cv)
      (\<lambda>(first_condition_fullfilled, first_frame_in_cond).
     and_then (find_part part_lens first_frame_in_cond) (\<lambda>last_part_idx.
       Inr (first_condition_fullfilled, first_frame_in_cond, last_part_idx,
            local_frame part_lens first_frame_in_cond last_part_idx))) = Inr (cond, g, part, loc)"
    by (blast dest: and_then_Inr)
  from r2 obtain p where p: "first_fullfilled cv = Inr p"
    and r3': "(case p of (first_condition_fullfilled, first_frame_in_cond) \<Rightarrow>
     and_then (find_part part_lens first_frame_in_cond) (\<lambda>last_part_idx.
       Inr (first_condition_fullfilled, first_frame_in_cond, last_part_idx,
            local_frame part_lens first_frame_in_cond last_part_idx))) = Inr (cond, g, part, loc)"
    by (blast dest: and_then_Inr)
  obtain cf ff where pp: "p = (cf, ff)" by (cases p)
  from r3' pp have r3: "and_then (find_part part_lens ff) (\<lambda>last_part_idx.
       Inr (cf, ff, last_part_idx, local_frame part_lens ff last_part_idx)) = Inr (cond, g, part, loc)"
    by simp
  from r3 obtain k where k: "find_part part_lens ff = Inr k"
    and e: "Inr (cf, ff, k, local_frame part_lens ff k) = (Inr (cond, g, part, loc) :: error + _)"
    by (blast dest: and_then_Inr)
  from find_part_sound[OF k] have "k < length part_lens" "sum_list (take k part_lens) \<le> ff"
    by auto
  moreover have "length part_lens = length cond_vals" using collect_length[OF pl] by simp
  ultimately show ?thesis using e by (auto simp: local_frame_def)
qed

lemma cut_and_concatenate_result:
  assumes ev: "collect (map (condition_vals_for_traj conds is_coroutine) trajs) = Inr cond_vals"
    and lc: "locate cond_vals = Inr (cond, g, part, loc)"
  shows "cut_and_concatenate_plan conds is_coroutine trajs =
           Inr ((take (part + 1) trajs, cut_slices part loc), cond)"
    and "cut_and_concatenate conds is_coroutine trajs =
           Inr (concat (take part trajs) @ take (nat loc + 1) (trajs ! part), cond)"
proof -
  show p: "cut_and_concatenate_plan conds is_coroutine trajs =
           Inr ((take (part + 1) trajs, cut_slices part loc), cond)"
    by (simp add: cut_and_concatenate_plan_def ev lc and_then_def)
  have "length cond_vals = length trajs" using collect_length[OF ev] by simp
  with locate_sound[OF lc] have b: "part < length trajs" "0 \<le> loc" by auto
  show "cut_and_concatenate conds is_coroutine trajs =
           Inr (concat (take part trajs) @ take (nat loc + 1) (trajs ! part), cond)"
    using concatenate_cut[OF b] by (simp add: cut_and_concatenate_def p and_then_def)
qed

lemma locate_no_true:
  assumes con: "consistent n cond_vals"
    and no: "\<not> (\<exists>c g. c < n \<and> g < length (frame_axis cond_vals c) \<and> frame_axis cond_vals c ! g)"
  shows "locate (map (map Values) cond_vals) = Inl ValueError"
proof -
  let ?pl = "map (\<lambda>a. length (hd a)) cond_vals"
  let ?M = "map (\<lambda>i. frame_axis cond_vals i) [0..<n]"
  note cd = consistentD[OF con]
  have pl: "collect (map part_len (map (map Values) cond_vals)) = Inr ?pl"
    by (rule part_lens_ok[where n = n]) (use cd in auto)
  have cat: "np_concatenate_axis1 (map (map Values) cond_vals) = Inr ?M"
    unfolding frame_axis_def by (rule np_concatenate_axis1_ok) (use cd in auto)
  have "first_fullfilled ?M = Inl ValueError"
    by (rule first_fullfilled_none) (use no in auto)
  then show ?thesis by (simp add: locate_def pl[unfolded map_map] cat and_then_def)
qed


lemma py_range_backward:
  "- 1 \<le> a \<Longrightarrow> py_range a (- 1) (- 1) = map (\<lambda>k. a - int k) [0..<nat (a + 1)]"
  by (simp add: py_range_def add.commute)

lemma map_nth_down:
  assumes "m < length xs"
  shows "map (\<lambda>k. xs ! nat (int m - int k)) [0..<Suc m] = rev (take (Suc m) xs)"
proof (rule nth_equalityI)
  show "length (map (\<lambda>k. xs ! nat (int m - int k)) [0..<Suc m]) = length (rev (take (Suc m) xs))"
    using assms by simp
next
  fix i
  assume "i < length (map (\<lambda>k. xs ! nat (int m - int k)) [0..<Suc m])"
  then have i: "i < Suc m" by simp
  have len: "length (take (Suc m) xs) = Suc m" using assms by simp
  have "rev (take (Suc m) xs) ! i = take (Suc m) xs ! (length (take (Suc m) xs) - Suc i)"
    using i len by (simp only: rev_nth)
  then have "rev (take (Suc m) xs) ! i = take (Suc m) xs ! (m - i)"
    by (simp only: len diff_Suc_Suc)
  also have "\<dots> = xs ! (m - i)" using i by simp
  also have "m - i = nat (int m - int i)" using i by simp
  finally have "rev (take (Suc m) xs) ! i = xs ! nat (int m - int i)" .
  moreover have "map (\<lambda>k. xs ! nat (int m - int k)) [0..<Suc m] ! i = xs ! nat (int m - int i)"
    using i by (simp del: upt_Suc)
  ultimately show "map (\<lambda>k. xs ! nat (int m - int k)) [0..<Suc m] ! i = rev (take (Suc m) xs) ! i"
    by simp
qed

lemma py_slice_down_from:
  assumes "m < length xs"
  shows "py_slice xs (int m, None, - 1) = Inr (rev (take (Suc m) xs))"
proof -
  have "slice_indices (length xs) (int m, None, - 1)
          = Inr (map (\<lambda>k. int m - int k) [0..<Suc m])"
    using assms
    by (simp add: slice_indices_def slice_bound_def py_range_backward nat_add_distrib
          del: upt_Suc)
  then show ?thesis
    using map_nth_down[OF assms]
    by (simp add: py_slice_def and_then_def comp_def del: upt_Suc)
qed

lemma py_slice_reversed: "py_slice xs (- 1, None, - 1) = Inr (rev xs)"
proof (cases xs)
  case Nil
  then show ?thesis
    by (simp add: py_slice_def slice_indices_def slice_bound_def py_range_def and_then_def)
next
  case (Cons x rest)
  then have l: "length rest < length xs" by simp
  have "slice_indices (length xs) (- 1, None, - 1)
          = Inr (map (\<lambda>k. int (length rest) - int k) [0..<Suc (length rest)])"
    using Cons
    by (simp add: slice_indices_def slice_bound_def py_range_backward nat_add_distrib
          del: upt_Suc)
  then show ?thesis
    using map_nth_down[OF l] Cons
    by (simp add: py_slice_def and_then_def comp_def del: upt_Suc)
qed

lemma map_nth_from_one:
  assumes "m \<le> length xs"
  shows "map (\<lambda>k. xs ! nat (1 + int k)) [0..<m - 1] = drop 1 (take m xs)"
proof (rule nth_equalityI)
  show "length (map (\<lambda>k. xs ! nat (1 + int k)) [0..<m - 1]) = length (drop 1 (take m xs))"
    using assms by simp
next
  fix i
  assume "i < length (map (\<lambda>k. xs ! nat (1 + int k)) [0..<m - 1])"
  then have i: "i < m - 1" by simp
  have "nat (1 + int i) = Suc i" by simp
  then show "map (\<lambda>k. xs ! nat (1 + int k)) [0..<m - 1] ! i = drop 1 (take m xs) ! i"
    using i assms by simp
qed

lemma py_range_from_one: "py_range 1 b 1 = map (\<lambda>k. 1 + int k) [0..<nat (b - 1)]"
  by (simp add: py_range_def)

lemma py_slice_tail: "py_slice xs (1, None, 1) = Inr (drop 1 xs)"
proof (cases xs)
  case Nil
  then show ?thesis
    by (simp add: py_slice_def slice_indices_def slice_bound_def py_range_def and_then_def)
next
  case (Cons x rest)
  have "slice_indices (length xs) (1, None, 1)
          = Inr (map (\<lambda>k. 1 + int k) [0..<length xs - 1])"
    using Cons by (simp add: slice_indices_def slice_bound_def py_range_from_one)
  then show ?thesis
    using map_nth_from_one[of "length xs" xs]
    by (simp add: py_slice_def and_then_def comp_def)
qed

lemma py_slice_tail_until:
  assumes "0 \<le> p"
  shows "py_slice xs (1, Some (p + 1), 1) = Inr (drop 1 (take (nat p + 1) xs))"
proof (cases "xs = []")
  case True
  then show ?thesis
    using assms
    by (simp add: py_slice_def slice_indices_def slice_bound_def py_range_def and_then_def)
next
  case False
  then have pos: "1 \<le> int (length xs)" by (cases xs) auto
  note ne = False
  show ?thesis
  proof (cases "p + 1 \<le> int (length xs)")
    case True
    then have "slice_indices (length xs) (1, Some (p + 1), 1)
          = Inr (map (\<lambda>k. 1 + int k) [0..<(nat p + 1) - 1])"
      using assms pos ne by (simp add: slice_indices_def slice_bound_def py_range_from_one)
    moreover have "nat p + 1 \<le> length xs" using True assms by linarith
    ultimately show ?thesis
      using map_nth_from_one[of "nat p + 1" xs]
      by (simp add: py_slice_def and_then_def comp_def)
  next
    case False
    have h: "nat (int (length xs) - 1) = length xs - Suc 0" using pos by linarith
    from False have "slice_indices (length xs) (1, Some (p + 1), 1)
          = Inr (map (\<lambda>k. 1 + int k) [0..<length xs - 1])"
      using assms pos ne h by (simp add: slice_indices_def slice_bound_def py_range_from_one)
    moreover have "take (nat p + 1) xs = xs" using False assms by simp
    ultimately show ?thesis
      using map_nth_from_one[of "length xs" xs]
      by (simp add: py_slice_def and_then_def comp_def)
  qed
qed

lemma np_min_Min: "xs \<noteq> [] \<Longrightarrow> np_min xs = Inr (Min (set xs))"
  by (cases xs) (simp_all add: np_min_def Min.set_eq_fold[symmetric])

lemma sum_take_mono:
  "a \<le> b \<Longrightarrow> sum_list (take a (pl :: nat list)) \<le> sum_list (take b pl)"
proof -
  assume "a \<le> b"
  then have "take a pl = take a (take b pl)" by (simp add: min_def)
  then show ?thesis using sum_take_le[of a "take b pl"] by simp
qed

lemma part_unique:
  assumes "sum_list (take k pl) \<le> (g::nat)" "g < sum_list (take (Suc k) pl)"
    and "sum_list (take j pl) \<le> g" "g < sum_list (take (Suc j) pl)"
  shows "k = j"
proof (rule ccontr)
  assume "k \<noteq> j"
  then consider "Suc k \<le> j" | "Suc j \<le> k" by linarith
  then show False
  proof cases
    case 1
    from sum_take_mono[OF 1, of pl] assms show False by simp
  next
    case 2
    from sum_take_mono[OF 2, of pl] assms show False by simp
  qed
qed

lemma chain_address_first_true:
  assumes j: "j < length vs" and m: "m < length (vs ! j)" "vs ! j ! m"
    and before: "\<forall>f < m. \<not> vs ! j ! f"
    and earlier: "\<forall>i < j. \<forall>f < length (vs ! i). \<not> vs ! i ! f"
  shows "chain_address vs = Inr (j, int m)"
proof -
  let ?pl = "map length vs"
  let ?G = "sum_list (take j ?pl) + m"
  have ne: "vs \<noteq> []" using j by auto
  have G1: "sum_list (take j ?pl) \<le> ?G" by simp
  have G2: "?G < sum_list (take (Suc j) ?pl)" using j m(1) by (simp add: sum_take_Suc)
  have Gt: "?G < sum_list ?pl" using G2 sum_take_le[of "Suc j" ?pl] by linarith
  have at: "concat vs ! g = vs ! k ! (g - sum_list (take k ?pl))"
    if "k < length vs" "sum_list (take k ?pl) \<le> g" "g < sum_list (take (Suc k) ?pl)" for g k
    using nth_concat_part[of k vs g] that by (simp add: take_map)
  have GT: "concat vs ! ?G" using at[OF j G1 G2] m(2) by simp
  have Gin: "?G \<in> set (np_where1 (concat vs))"
    using GT Gt by (simp add: set_np_where1 length_concat)
  have least: "?G \<le> g" if "g \<in> set (np_where1 (concat vs))" for g
  proof (rule ccontr)
    assume "\<not> ?G \<le> g"
    then have lt: "g < ?G" by simp
    from that have g: "g < sum_list ?pl" "concat vs ! g"
      by (simp_all add: set_np_where1 length_concat)
    from find_part_spec[OF g(1)] obtain k where k: "k < length vs"
      "sum_list (take k ?pl) \<le> g" "g < sum_list (take (Suc k) ?pl)"
      by auto
    have val: "vs ! k ! (g - sum_list (take k ?pl))" using at[OF k] g(2) by simp
    have inr: "g - sum_list (take k ?pl) < length (vs ! k)"
      using k by (simp add: sum_take_Suc)
    have "k \<le> j"
    proof (rule ccontr)
      assume "\<not> k \<le> j"
      then have "Suc j \<le> k" by simp
      from sum_take_mono[OF this, of ?pl] G2 k(2) lt show False by simp
    qed
    then consider "k < j" | "k = j" by linarith
    then show False
    proof cases
      case 1
      with earlier inr val show False by blast
    next
      case 2
      then have "g - sum_list (take k ?pl) < m" using lt k(2) by simp
      with before val 2 show False by blast
    qed
  qed
  have "Min (set (np_where1 (concat vs))) = ?G"
    by (rule Min_eqI) (use Gin least in auto)
  moreover have "np_where1 (concat vs) \<noteq> []" using Gin by auto
  ultimately have mn: "np_min (np_where1 (concat vs)) = Inr ?G"
    by (simp add: np_min_Min)
  from find_part_spec[OF Gt] obtain k where k: "find_part ?pl ?G = Inr k"
    "sum_list (take k ?pl) \<le> ?G" "?G < sum_list (take (Suc k) ?pl)"
    by auto
  have kj: "k = j" by (rule part_unique[OF k(2,3) G1 G2])
  have lf: "local_frame ?pl ?G j = int m" by (simp add: local_frame_def)
  show ?thesis
    using ne mn k(1) kj lf
    by (simp add: chain_address_def np_concatenate_axis0_def and_then_def Let_def)
qed


lemma count_list_distinct: "distinct xs \<Longrightarrow> x \<in> set xs \<Longrightarrow> count_list xs x = 1"
  by (induction xs) auto

lemma concatenateD:
  "concatenate ts sl = Inr out \<Longrightarrow>
   \<exists>parts. collect (map (\<lambda>(t, s). py_slice t s) (zip ts sl)) = Inr parts \<and> out = concat parts"
  by (auto simp: concatenate_def dest!: and_then_Inr)

lemma concatenate_append:
  assumes "concatenate ts1 sl1 = Inr a" "concatenate ts2 sl2 = Inr b" "length ts1 = length sl1"
  shows "concatenate (ts1 @ ts2) (sl1 @ sl2) = Inr (a @ b)"
proof -
  from concatenateD[OF assms(1)] obtain p1 where
    p1: "collect (map (\<lambda>(t, s). py_slice t s) (zip ts1 sl1)) = Inr p1" "a = concat p1"
    by blast
  from concatenateD[OF assms(2)] obtain p2 where
    p2: "collect (map (\<lambda>(t, s). py_slice t s) (zip ts2 sl2)) = Inr p2" "b = concat p2"
    by blast
  have "collect (map (\<lambda>(t, s). py_slice t s) (zip (ts1 @ ts2) (sl1 @ sl2))) = Inr (p1 @ p2)"
    using collect_append[OF p1(1) p2(1)] assms(3) by simp
  then show ?thesis using p1(2) p2(2) by (simp add: concatenate_def and_then_def)
qed

lemma concatenate_single: "py_slice t s = Inr x \<Longrightarrow> concatenate [t] [s] = Inr x"
  by (simp add: concatenate_def and_then_def)

lemma concatenate_all_full:
  "concatenate ts (replicate (length ts) (0, None, 1)) = Inr (concat ts)"
  by (simp add: concatenate_def and_then_def concatenate_full_parts)

lemma concatenate_all_reversed:
  "concatenate ts (replicate (length ts) (- 1, None, - 1)) = Inr (concat (map rev ts))"
proof -
  have "collect (map (\<lambda>(t, s). py_slice t s) (zip ts (replicate (length ts) (- 1, None, - 1))))
          = Inr (map rev ts)"
    by (induction ts) (simp_all add: py_slice_reversed)
  then show ?thesis by (simp add: concatenate_def and_then_def)
qed

lemma concatenate_minus_plan:
  assumes "j < length minus_trajs" "m < length (minus_trajs ! j)"
  shows "concatenate (fst (minus_plan minus_trajs j (int m))) (snd (minus_plan minus_trajs j (int m)))
           = Inr (rev (take (Suc m) (minus_trajs ! j))
                  @ concat (map (\<lambda>i. rev (minus_trajs ! i)) (rev [0..<j])))"
proof -
  let ?ts = "map (\<lambda>i. minus_trajs ! i) (rev [0..<j])"
  have a: "concatenate [minus_trajs ! j] [(int m, None, - 1)]
             = Inr (rev (take (Suc m) (minus_trajs ! j)))"
    by (rule concatenate_single) (rule py_slice_down_from[OF assms(2)])
  have "concatenate ?ts (replicate (length ?ts) (- 1, None, - 1)) = Inr (concat (map rev ?ts))"
    by (rule concatenate_all_reversed)
  then have b: "concatenate ?ts (map (\<lambda>_. (- 1, None, - 1)) (rev [0..<j]))
                  = Inr (concat (map (\<lambda>i. rev (minus_trajs ! i)) (rev [0..<j])))"
    by (simp add: map_replicate_const comp_def)
  show ?thesis
    unfolding minus_plan_def fst_conv snd_conv
    by (rule concatenate_append[OF a b]) simp
qed

lemma concatenate_plus_plan:
  assumes "0 \<le> p"
  shows "concatenate (fst (plus_plan plus_trajs k p)) (snd (plus_plan plus_trajs k p))
           = Inr (if 0 < k
                  then drop 1 (plus_trajs ! 0) @ concat (map (\<lambda>i. plus_trajs ! i) [1..<k])
                       @ take (nat p + 1) (plus_trajs ! k)
                  else drop 1 (take (nat p + 1) (plus_trajs ! 0)))"
proof (cases "0 < k")
  case False
  then have k: "k = 0" by simp
  have "concatenate [plus_trajs ! 0] [(1, Some (p + 1), 1)]
          = Inr (drop 1 (take (nat p + 1) (plus_trajs ! 0)))"
    by (rule concatenate_single) (rule py_slice_tail_until[OF assms])
  then show ?thesis by (simp add: plus_plan_def k)
next
  case True
  let ?ts = "map (\<lambda>i. plus_trajs ! i) [1..<k]"
  have a: "concatenate [plus_trajs ! 0] [(1, None, 1)] = Inr (drop 1 (plus_trajs ! 0))"
    by (rule concatenate_single) (rule py_slice_tail)
  have "concatenate ?ts (replicate (length ?ts) (0, None, 1)) = Inr (concat ?ts)"
    by (rule concatenate_all_full)
  then have b: "concatenate ?ts (map (\<lambda>_. (0, None, 1)) [1..<k]) = Inr (concat ?ts)"
    by (simp add: map_replicate_const)
  have c: "concatenate [plus_trajs ! k] [(0, Some (p + 1), 1)]
             = Inr (take (nat p + 1) (plus_trajs ! k))"
    by (rule concatenate_single) (use assms in \<open>simp add: py_slice_prefix nat_add_distrib\<close>)
  have bc: "concatenate (?ts @ [plus_trajs ! k])
              (map (\<lambda>_. (0, None, 1)) [1..<k] @ [(0, Some (p + 1), 1)])
            = Inr (concat ?ts @ take (nat p + 1) (plus_trajs ! k))"
    by (rule concatenate_append[OF b c]) simp
  have "concatenate ([plus_trajs ! 0] @ (?ts @ [plus_trajs ! k]))
          ([(1, None, 1)] @ (map (\<lambda>_. (0, None, 1)) [1..<k] @ [(0, Some (p + 1), 1)]))
        = Inr (drop 1 (plus_trajs ! 0) @ (concat ?ts @ take (nat p + 1) (plus_trajs ! k)))"
    by (rule concatenate_append[OF a bc]) simp
  then show ?thesis using True by (simp add: plus_plan_def)
qed

lemma length_minus_plan:
  "length (fst (minus_plan minus_trajs j m)) = length (snd (minus_plan minus_trajs j m))"
  by (simp add: minus_plan_def)


lemma concat_reversed_parts:
  "j \<le> length xs \<Longrightarrow> concat (map (\<lambda>i. rev (xs ! i)) (rev [0..<j])) = rev (concat (take j xs))"
proof (induction j)
  case 0
  then show ?case by simp
next
  case (Suc j)
  then show ?case by (simp add: take_Suc_conv_app_nth)
qed

lemma minus_frames_prefix:
  assumes "j < length xs"
  shows "rev (take (Suc m) (xs ! j)) @ concat (map (\<lambda>i. rev (xs ! i)) (rev [0..<j]))
           = rev (concat (take j xs) @ take (Suc m) (xs ! j))"
  using assms by (simp add: concat_reversed_parts)

lemma concat_split_at:
  assumes "j < length xs"
  shows "concat xs = (concat (take j xs) @ take n (xs ! j))
                     @ (drop n (xs ! j) @ concat (drop (Suc j) xs))"
proof -
  have "xs = take j xs @ xs ! j # drop (Suc j) xs"
    using assms by (simp add: id_take_nth_drop)
  then have "concat xs = concat (take j xs) @ xs ! j @ concat (drop (Suc j) xs)"
    by (metis concat.simps(2) concat_append)
  then show ?thesis by simp
qed

lemma start_in_minus_frames:
  assumes "j < length xs" "xs ! 0 \<noteq> []"
  shows "xs ! 0 ! 0 \<in> set (concat (take j xs) @ take (Suc m) (xs ! j))"
proof (cases j)
  case 0
  with assms(2) show ?thesis by (cases "xs ! 0") auto
next
  case (Suc j')
  have "xs ! 0 \<in> set (take j xs)"
    using assms(1) Suc by (auto simp: in_set_conv_nth intro!: exI[of _ 0])
  moreover have "xs ! 0 ! 0 \<in> set (xs ! 0)" using assms(2) by simp
  ultimately show ?thesis by auto
qed

lemma count_start_in_minus_frames:
  assumes "j < length xs" "xs ! 0 \<noteq> []" "distinct (concat xs)"
  shows "count_list (rev (take (Suc m) (xs ! j)) @ concat (map (\<lambda>i. rev (xs ! i)) (rev [0..<j])))
           (xs ! 0 ! 0) = 1"
proof -
  have "distinct (concat (take j xs) @ take (Suc m) (xs ! j))"
    using assms(3) concat_split_at[OF assms(1), of "Suc m"] by (metis distinct_append)
  then have "count_list (concat (take j xs) @ take (Suc m) (xs ! j)) (xs ! 0 ! 0) = 1"
    by (rule count_list_distinct) (rule start_in_minus_frames[OF assms(1,2)])
  then show ?thesis
    unfolding minus_frames_prefix[OF assms(1)] by simp
qed

lemma set_drop1_take: "set (drop 1 (take n xs)) \<subseteq> set (drop 1 xs)"
proof -
  have "drop 1 (take n xs) = take (n - 1) (drop 1 xs)" by (simp add: drop_take)
  then show ?thesis by (metis set_take_subset)
qed

lemma start_not_in_plus_frames:
  assumes "k < length ys" "x \<notin> set (drop 1 (ys ! 0))"
    and "\<forall>i. 0 < i \<and> i < length ys \<longrightarrow> x \<notin> set (ys ! i)"
  shows "x \<notin> set (if 0 < k
                  then drop 1 (ys ! 0) @ concat (map (\<lambda>i. ys ! i) [1..<k]) @ take n (ys ! k)
                  else drop 1 (take n (ys ! 0)))"
proof (cases "0 < k")
  case False
  then show ?thesis using assms(2) set_drop1_take[of n "ys ! 0"] by auto
next
  case True
  have "x \<notin> set (take n (ys ! k))"
    using assms(1,3) True by (meson in_set_takeD)
  moreover have "x \<notin> set (concat (map (\<lambda>i. ys ! i) [1..<k]))"
    using assms(1,3) by auto
  ultimately show ?thesis using True assms(2) by simp
qed


lemma length_fill_results: "length (fill_results order aws slots) = length slots"
  by (induction order arbitrary: slots) simp_all

lemma fill_results_nth:
  assumes "i < length slots"
  shows "fill_results order aws slots ! i
           = (if i \<in> set order then Some (aws ! i) else slots ! i)"
  using assms
proof (induction order arbitrary: slots)
  case Nil
  then show ?case by simp
next
  case (Cons k ks)
  have "fill_results (k # ks) aws slots ! i
          = (if i \<in> set ks then Some (aws ! i) else (slots[k := Some (aws ! k)]) ! i)"
    using Cons.IH[of "slots[k := Some (aws ! k)]"] Cons.prems by simp
  then show ?case using Cons.prems by (auto simp: nth_list_update)
qed


lemma gather_completing_missing:
  assumes "k < length aws" "k \<notin> set order"
  shows "gather_completing order aws = None"
proof -
  let ?slots = "fill_results order aws (replicate (length aws) None)"
  have len: "length ?slots = length aws" by (simp add: length_fill_results)
  have "?slots ! k = None"
    using fill_results_nth[of k "replicate (length aws) None" order aws] assms by simp
  then have "None \<in> set ?slots" using len assms(1) by (metis nth_mem)
  then have "\<not> list_all (\<lambda>s. s \<noteq> None) ?slots" by (auto simp: list_all_iff)
  then show ?thesis unfolding gather_completing_def Let_def by simp
qed





lemma await_flagged: "iscoroutinefunction c \<Longrightarrow> await (invoke c traj) = Inr (call c traj)"
  by (cases c) simp_all

lemma stored_by_flag:
  "(if iscoroutinefunction c then Values (call c traj) else invoke c traj) = stored c traj"
  by (cases c) (simp_all add: stored_def)

lemma stored_yields: "yields_values c \<Longrightarrow> stored c traj = Values (call c traj)"
  by (simp add: stored_def)

lemma asyncio_gather_awaitables:
  assumes "\<And>x. x \<in> set xs \<Longrightarrow> await (g x) = Inr (h x)"
  shows "asyncio_gather (map g xs) = Inr (map h xs)"
  unfolding asyncio_gather_def map_map
  by (rule collect_map_Inr) (simp add: assms)

lemma zip_setter_flags:
  "zip conds (map iscoroutinefunction conds) = map (\<lambda>c. (c, iscoroutinefunction c)) conds"
  by (induction conds) simp_all



lemma piece_together_spec:
  "piece_together zipped traj
     (map (\<lambda>(c, f). call c traj) (filter (\<lambda>(c, f). f) zipped)) acc
   = Inr (acc @ map (\<lambda>(c, f). if f then Values (call c traj) else invoke c traj) zipped)"
proof (induction zipped arbitrary: acc)
  case Nil
  then show ?case by simp
next
  case (Cons x rest)
  obtain c f where x: "x = (c, f)" by (cases x) auto
  show ?case
  proof (cases f)
    case True
    then show ?thesis using Cons.IH[of "acc @ [Values (call c traj)]"] x by simp
  next
    case False
    then show ?thesis using Cons.IH[of "acc @ [invoke c traj]"] x by simp
  qed
qed


lemma condition_vals_for_traj_value:
  "condition_vals_for_traj conds (map iscoroutinefunction conds) traj
     = Inr (map (\<lambda>c. stored c traj) conds)"
proof -
  let ?flags = "map iscoroutinefunction conds"
  let ?zipped = "zip conds ?flags"
  let ?flagged = "filter (\<lambda>(c, f). f) ?zipped"
  have st: "map (\<lambda>(c, f). if f then Values (call c traj) else invoke c traj) ?zipped
              = map (\<lambda>c. stored c traj) conds"
    unfolding zip_setter_flags by (simp add: stored_by_flag)
  have g: "asyncio_gather (map (\<lambda>(c, f). invoke c traj) ?flagged)
             = Inr (map (\<lambda>(c, f). call c traj) ?flagged)"
    by (rule asyncio_gather_awaitables) (auto simp: zip_setter_flags await_flagged)
  have mixed: "and_then (asyncio_gather (map (\<lambda>(c, f). invoke c traj) ?flagged))
                 (\<lambda>coro_res. piece_together ?zipped traj coro_res [])
               = Inr (map (\<lambda>c. stored c traj) conds)"
    unfolding g using piece_together_spec[of ?zipped traj "[]"] st
    by (simp add: and_then_def)
  have every: "and_then (asyncio_gather (map (\<lambda>c. invoke c traj) conds))
                 (\<lambda>res. Inr (map Values res))
               = Inr (map (\<lambda>c. stored c traj) conds)"
    if "list_all id ?flags"
  proof -
    have a: "iscoroutinefunction c" if "c \<in> set conds" for c
      using \<open>list_all id ?flags\<close> that by (auto simp: list_all_iff)
    have "asyncio_gather (map (\<lambda>c. invoke c traj) conds) = Inr (map (\<lambda>c. call c traj) conds)"
      by (rule asyncio_gather_awaitables) (simp add: await_flagged a)
    moreover have "stored c traj = Values (call c traj)" if "c \<in> set conds" for c
      using a[OF that] stored_by_flag[of c traj] by simp
    then have "map Values (map (\<lambda>c. call c traj) conds) = map (\<lambda>c. stored c traj) conds"
      by simp
    ultimately show ?thesis by (simp add: and_then_def)
  qed
  have none: "map (\<lambda>c. invoke c traj) conds = map (\<lambda>c. stored c traj) conds"
    if "\<not> list_ex id ?flags"
  proof -
    have a: "\<not> iscoroutinefunction c" if "c \<in> set conds" for c
      using \<open>\<not> list_ex id ?flags\<close> that by (auto simp: list_ex_iff)
    have "invoke c traj = stored c traj" if "c \<in> set conds" for c
      using a[OF that] stored_by_flag[of c traj] by simp
    then show ?thesis by simp
  qed
  show ?thesis
    unfolding condition_vals_for_traj_def Let_def using mixed every none by simp
qed

lemma cond_vals_on_stored:
  assumes "condition_func_is_coroutine p = map iscoroutinefunction (conditions p)"
  shows "cond_vals_on p traj = Inr (map (\<lambda>c. stored c traj) (conditions p))"
  unfolding cond_vals_on_def assms by (rule condition_vals_for_traj_value)

lemma cond_vals_on_value:
  assumes "condition_func_is_coroutine p = map iscoroutinefunction (conditions p)"
    and "per_frame p traj"
  shows "cond_vals_on p traj = Inr (map (\<lambda>c. Values (call c traj)) (conditions p))"
proof -
  have "map (\<lambda>c. stored c traj) (conditions p)
          = map (\<lambda>c. Values (call c traj)) (conditions p)"
    using assms(2) by (auto simp: per_frame_def list_all_iff stored_yields)
  then show ?thesis using cond_vals_on_stored[OF assms(1), of traj] by simp
qed



lemma rectangular_values:
  assumes "per_frame p traj"
  shows "rectangular (map (\<lambda>c. call c traj) (conditions p))"
proof (cases "conditions p")
  case Nil
  then show ?thesis by (simp add: rectangular_def)
next
  case (Cons c cs)
  have all: "\<And>d. d \<in> set (conditions p) \<Longrightarrow> length (call d traj) = length traj"
    using assms unfolding per_frame_def list_all_iff by blast
  have "length (hd (map (\<lambda>c. call c traj) (conditions p))) = length traj"
    using Cons all[of c] by simp
  then show ?thesis
    unfolding rectangular_def list_all_iff using all by auto
qed

lemma np_asarray_values:
  assumes "per_frame p traj"
  shows "np_asarray (map (\<lambda>c. Values (call c traj)) (conditions p))
           = Inr (map (\<lambda>c. call c traj) (conditions p))"
proof -
  have "map (\<lambda>c. Values (call c traj)) (conditions p)
          = map Values (map (\<lambda>c. call c traj) (conditions p))"
    by simp
  then show ?thesis
    using rectangular_values[OF assms] by (simp only: np_asarray_Values if_True)
qed

lemma np_any_values:
  assumes "per_frame p traj"
  shows "np_any (map (\<lambda>c. Values (call c traj)) (conditions p)) = Inr (holds_on p traj)"
  by (simp add: np_any_def np_asarray_values[OF assms] and_then_def holds_on_def list_ex_iff)

lemma holds_on_entry:
  assumes "holds_on p traj"
  shows "\<exists>i j. i < length (conditions p) \<and> j < length (call (conditions p ! i) traj) \<and>
           call (conditions p ! i) traj ! j"
proof -
  from assms obtain c where c: "c \<in> set (conditions p)" "list_ex id (call c traj)"
    unfolding holds_on_def list_ex_iff by blast
  then obtain b where b: "b \<in> set (call c traj)" "b" unfolding list_ex_iff by auto
  from c(1) obtain i where i: "i < length (conditions p)" "conditions p ! i = c"
    by (auto simp: in_set_conv_nth)
  from b(1) obtain j where j: "j < length (call c traj)" "call c traj ! j = b"
    by (auto simp: in_set_conv_nth)
  show ?thesis using i j b(2) by blast
qed

lemma first_fullfilled_values:
  assumes "per_frame p traj" "holds_on p traj"
  shows "\<exists>c f. first_fullfilled (map (\<lambda>c. call c traj) (conditions p)) = Inr (c, f) \<and>
           c < length (conditions p) \<and> f < length traj \<and> call (conditions p ! c) traj ! f \<and>
           (\<forall>i j. i < length (conditions p) \<and> j < length traj \<and>
                  call (conditions p ! i) traj ! j \<longrightarrow> f \<le> j \<and> (j = f \<longrightarrow> c \<le> i))"
proof -
  let ?cv = "map (\<lambda>c. call c traj) (conditions p)"
  have len: "length (call (conditions p ! i) traj) = length traj"
    if "i < length (conditions p)" for i
    using assms(1) that unfolding per_frame_def list_all_length by simp
  from holds_on_entry[OF assms(2)] obtain i0 j0 where
    "i0 < length ?cv" "j0 < length (?cv ! i0)" "?cv ! i0 ! j0" by auto
  from first_fullfilled_some[OF this] obtain c f where
    ff: "first_fullfilled ?cv = Inr (c, f)" and c: "c < length ?cv" and f: "f < length (?cv ! c)"
    and t: "?cv ! c ! f"
    and least: "\<forall>i j. i < length ?cv \<and> j < length (?cv ! i) \<and> ?cv ! i ! j
                  \<longrightarrow> f \<le> j \<and> (j = f \<longrightarrow> c \<le> i)"
    by blast
  have c': "c < length (conditions p)" using c by simp
  have f': "f < length traj" using f c' len by simp
  have t': "call (conditions p ! c) traj ! f" using t c' by simp
  have least': "f \<le> j \<and> (j = f \<longrightarrow> c \<le> i)"
    if "i < length (conditions p)" "j < length traj" "call (conditions p ! i) traj ! j" for i j
  proof -
    have "i < length ?cv \<and> j < length (?cv ! i) \<and> ?cv ! i ! j" using that len by simp
    then show ?thesis using least by blast
  qed
  show ?thesis using ff c' f' t' least' by blast
qed

text \<open>One pass through the body of the loop, on a segment without a true condition.\<close>

lemma propagate_loop_step:
  assumes flags: "condition_func_is_coroutine p = map iscoroutinefunction (conditions p)"
    and pf: "per_frame p (fst (run_walltime (engine_cls p) e (walltime_per_part p)))"
    and w: "within_limit c0 (max_steps p)"
  shows "propagate_loop p e False cv trajs c0 events =
           propagate_loop p (snd (run_walltime (engine_cls p) e (walltime_per_part p)))
             (holds_on p (fst (run_walltime (engine_cls p) e (walltime_per_part p))))
             (map (\<lambda>c. Values (call c (fst (run_walltime (engine_cls p) e
                                               (walltime_per_part p)))))
                (conditions p))
             (trajs @ [fst (run_walltime (engine_cls p) e (walltime_per_part p))])
             (steps_done (engine_cls p)
                (snd (run_walltime (engine_cls p) e (walltime_per_part p))))
             (events @ [RanWalltime])"
proof -
  obtain traj e' where r: "run_walltime (engine_cls p) e (walltime_per_part p) = (traj, e')"
    by (cases "run_walltime (engine_cls p) e (walltime_per_part p)") auto
  have pf': "per_frame p traj" using pf r by simp
  show ?thesis
    apply (subst propagate_loop.simps)
    apply (simp add: w r cond_vals_on_value[OF flags pf'] np_any_values[OF pf'])
    done
qed

lemma propagate_loop_step_at:
  assumes flags: "condition_func_is_coroutine p = map iscoroutinefunction (conditions p)"
    and pf: "per_frame p (segment p e n)"
    and w: "within_limit (step_count p e c0 n) (max_steps p)"
  shows "propagate_loop p (engine_after p e n) False cv trajs (step_count p e c0 n) events =
           propagate_loop p (engine_after p e (Suc n)) (holds_on p (segment p e n))
             (map (\<lambda>c. Values (call c (segment p e n))) (conditions p))
             (trajs @ [segment p e n]) (step_count p e c0 (Suc n)) (events @ [RanWalltime])"
proof -
  have pf': "per_frame p (fst (run_walltime (engine_cls p) (engine_after p e n)
                                (walltime_per_part p)))"
    using pf by (simp add: segment_def)
  show ?thesis
    using propagate_loop_step[OF flags pf' w, of cv trajs events]
    by (simp add: segment_def step_count_def)
qed

lemma propagate_loop_quiet:
  assumes flags: "condition_func_is_coroutine p = map iscoroutinefunction (conditions p)"
    and quiet: "\<forall>k < n. per_frame p (segment p e k) \<and> \<not> holds_on p (segment p e k)"
    and within: "\<forall>k < n. within_limit (step_count p e c0 k) (max_steps p)"
  shows "\<exists>cv'. propagate_loop p e False cv trajs c0 events =
           propagate_loop p (engine_after p e n) False cv'
             (trajs @ map (segment p e) [0..<n]) (step_count p e c0 n)
             (events @ replicate n RanWalltime)"
  using quiet within
proof (induction n)
  case 0
  show ?case by (intro exI[of _ cv]) (simp add: step_count_def)
next
  case (Suc n)
  from Suc.IH Suc.prems obtain cv' where
    ih: "propagate_loop p e False cv trajs c0 events =
           propagate_loop p (engine_after p e n) False cv'
             (trajs @ map (segment p e) [0..<n]) (step_count p e c0 n)
             (events @ replicate n RanWalltime)"
    by auto
  have pf: "per_frame p (segment p e n)" and q: "\<not> holds_on p (segment p e n)"
    using Suc.prems(1) by simp_all
  have w: "within_limit (step_count p e c0 n) (max_steps p)" using Suc.prems(2) by simp
  have r: "(events @ replicate n RanWalltime) @ [RanWalltime]
             = events @ replicate (Suc n) RanWalltime"
    by (simp add: replicate_append_same)
  have t: "(trajs @ map (segment p e) [0..<n]) @ [segment p e n]
             = trajs @ map (segment p e) [0..<Suc n]"
    by simp
  have "propagate_loop p e False cv trajs c0 events =
           propagate_loop p (engine_after p e (Suc n)) False
             (map (\<lambda>c. Values (call c (segment p e n))) (conditions p))
             (trajs @ map (segment p e) [0..<Suc n]) (step_count p e c0 (Suc n))
             (events @ replicate (Suc n) RanWalltime)"
    unfolding ih propagate_loop_step_at[OF flags pf w] r t using q by simp
  then show ?case by blast
qed

lemma propagate_loop_exceeded:
  assumes "\<not> within_limit c0 (max_steps p)"
  shows "propagate_loop p e False cv trajs c0 events
           = Some (events, Inl (MaxStepsReachedError c0 (max_steps p)))"
  by (subst propagate_loop.simps) (simp add: assms after_loop_def)

lemma propagate_loop_fullfilled:
  "propagate_loop p e True cv trajs c0 events
     = Some (events, and_then (np_asarray cv) (\<lambda>a.
                     and_then (first_fullfilled a) (\<lambda>(c, frame). Inr (trajs, c))))"
  by (subst propagate_loop.simps) (simp add: after_loop_def)

lemma propagate_loop_reaches_error:
  assumes flags: "condition_func_is_coroutine p = map iscoroutinefunction (conditions p)"
    and quiet: "\<forall>k < n. per_frame p (segment p e k) \<and> \<not> holds_on p (segment p e k)"
    and within: "\<forall>k < n. within_limit (step_count p e c0 k) (max_steps p)"
    and exceeded: "\<not> within_limit (step_count p e c0 n) (max_steps p)"
  shows "propagate_loop p e False cv trajs c0 events =
           Some (events @ replicate n RanWalltime,
                 Inl (MaxStepsReachedError (step_count p e c0 n) (max_steps p)))"
proof -
  from propagate_loop_quiet[OF flags quiet within, of cv trajs events] obtain cv' where
    "propagate_loop p e False cv trajs c0 events =
           propagate_loop p (engine_after p e n) False cv'
             (trajs @ map (segment p e) [0..<n]) (step_count p e c0 n)
             (events @ replicate n RanWalltime)"
    by blast
  then show ?thesis by (simp only: propagate_loop_exceeded[OF exceeded])
qed

lemma propagate_loop_reaches_condition:
  assumes flags: "condition_func_is_coroutine p = map iscoroutinefunction (conditions p)"
    and quiet: "\<forall>k < n. per_frame p (segment p e k) \<and> \<not> holds_on p (segment p e k)"
    and within: "\<forall>k < n. within_limit (step_count p e c0 k) (max_steps p)"
    and last: "within_limit (step_count p e c0 n) (max_steps p)"
      "per_frame p (segment p e n)" "holds_on p (segment p e n)"
  shows "\<exists>c f. propagate_loop p e False cv trajs c0 events =
           Some (events @ replicate (Suc n) RanWalltime,
                 Inr (trajs @ map (segment p e) [0..<Suc n], c)) \<and>
           first_fullfilled (map (\<lambda>c. call c (segment p e n)) (conditions p)) = Inr (c, f)"
proof -
  from propagate_loop_quiet[OF flags quiet within, of cv trajs events] obtain cv' where
    a: "propagate_loop p e False cv trajs c0 events =
           propagate_loop p (engine_after p e n) False cv'
             (trajs @ map (segment p e) [0..<n]) (step_count p e c0 n)
             (events @ replicate n RanWalltime)"
    by blast
  from first_fullfilled_values[OF last(2,3)] obtain c f where
    ff: "first_fullfilled (map (\<lambda>c. call c (segment p e n)) (conditions p)) = Inr (c, f)"
    by blast
  have r: "(events @ replicate n RanWalltime) @ [RanWalltime]
             = events @ replicate (Suc n) RanWalltime"
    by (simp add: replicate_append_same)
  have t: "(trajs @ map (segment p e) [0..<n]) @ [segment p e n]
             = trajs @ map (segment p e) [0..<Suc n]"
    by simp
  have "propagate_loop p e False cv trajs c0 events =
           Some (events @ replicate (Suc n) RanWalltime,
                 Inr (trajs @ map (segment p e) [0..<Suc n], c))"
    unfolding a propagate_loop_step_at[OF flags last(2) last(1)] r t
    using last(3) ff
    by (simp add: propagate_loop_fullfilled np_asarray_values[OF last(2)] and_then_def)
  with ff show ?thesis by blast
qed

lemma recovered_values:
  assumes "condition_func_is_coroutine p = map iscoroutinefunction (conditions p)"
    and "\<forall>t \<in> set trajs. per_frame p t"
  shows "collect (map (cond_vals_on p) trajs)
           = Inr (map (\<lambda>t. map (\<lambda>c. Values (call c t)) (conditions p)) trajs)"
  by (rule collect_map_Inr) (rule cond_vals_on_value[OF assms(1)], use assms(2) in blast)

lemma recovered_concatenated:
  assumes "conditions p \<noteq> []" "trajs \<noteq> []" "\<forall>t \<in> set trajs. per_frame p t"
  shows "np_concatenate_axis1 (map (\<lambda>t. map (\<lambda>c. Values (call c t)) (conditions p)) trajs)
           = Inr (map (values_along p trajs) [0..<length (conditions p)])"
proof -
  let ?M = "\<lambda>t. map (\<lambda>c. call c t) (conditions p)"
  have eq: "map (\<lambda>t. map (\<lambda>c. Values (call c t)) (conditions p)) trajs
              = map (map Values) (map ?M trajs)"
    by simp
  have ne: "map ?M trajs \<noteq> []" using assms(2) by simp
  have ok: "rectangular a \<and> length a = length (conditions p)" if "a \<in> set (map ?M trajs)" for a
  proof -
    from that obtain t where t: "t \<in> set trajs" "a = ?M t" by auto
    then show ?thesis using rectangular_values[of p t] assms(3) by simp
  qed
  have pos: "0 < length (conditions p)" using assms(1) by simp
  have va: "map (\<lambda>i. concat (map (\<lambda>a. a ! i) (map ?M trajs))) [0..<length (conditions p)]
          = map (values_along p trajs) [0..<length (conditions p)]"
    by (rule map_cong) (simp_all add: values_along_def comp_def)
  have cat: "np_concatenate_axis1 (map (map Values) (map ?M trajs))
               = Inr (map (\<lambda>i. concat (map (\<lambda>a. a ! i) (map ?M trajs)))
                        [0..<length (conditions p)])"
    by (rule np_concatenate_axis1_ok[OF ne ok pos])
  show ?thesis by (simp only: eq cat va)
qed

lemma length_values_along:
  assumes "\<forall>t \<in> set trajs. per_frame p t" "i < length (conditions p)"
  shows "length (values_along p trajs i) = sum_list (map length trajs)"
proof -
  have "map (\<lambda>t. length (call (conditions p ! i) t)) trajs = map length trajs"
  proof (rule map_cong)
    fix t assume "t \<in> set trajs"
    then have "per_frame p t" using assms(1) by blast
    then show "length (call (conditions p ! i) t) = length t"
      using assms(2) unfolding per_frame_def list_all_length by simp
  qed simp
  then have "sum_list (map (\<lambda>t. length (call (conditions p ! i) t)) trajs)
               = sum_list (map length trajs)"
    by (rule arg_cong)
  then show ?thesis by (simp only: values_along_def length_concat map_map comp_def)
qed

lemma values_along_true:
  assumes "i < length (conditions p)"
  shows "list_ex id (values_along p trajs i)
           \<longleftrightarrow> (\<exists>t \<in> set trajs. list_ex id (call (conditions p ! i) t))"
  by (auto simp: values_along_def list_ex_iff)

lemma holds_on_iff:
  "holds_on p t \<longleftrightarrow> (\<exists>i < length (conditions p). list_ex id (call (conditions p ! i) t))"
proof
  assume "holds_on p t"
  then obtain c where c: "c \<in> set (conditions p)" "list_ex id (call c t)"
    unfolding holds_on_def list_ex_iff[of "\<lambda>c. list_ex id (call c t)"] by blast
  from c(1) obtain i where "i < length (conditions p)" "conditions p ! i = c"
    by (auto simp: in_set_conv_nth)
  with c(2) show "\<exists>i < length (conditions p). list_ex id (call (conditions p ! i) t)" by blast
next
  assume "\<exists>i < length (conditions p). list_ex id (call (conditions p ! i) t)"
  then obtain i where i: "i < length (conditions p)" "list_ex id (call (conditions p ! i) t)"
    by blast
  have "conditions p ! i \<in> set (conditions p)" using i(1) by (rule nth_mem)
  with i(2) show "holds_on p t"
    unfolding holds_on_def list_ex_iff[of "\<lambda>c. list_ex id (call c t)"] by blast
qed

lemma np_any_recovered:
  assumes "\<forall>t \<in> set trajs. per_frame p t"
  shows "np_any (map Values (map (values_along p trajs) [0..<length (conditions p)]))
           = Inr (list_ex (holds_on p) trajs)"
proof -
  let ?c = "map (values_along p trajs) [0..<length (conditions p)]"
  have rect: "rectangular ?c"
  proof (cases "conditions p = []")
    case True
    then show ?thesis by (simp add: rectangular_def)
  next
    case False
    then have "hd ?c = values_along p trajs 0" by (simp add: hd_map upt_conv_Cons)
    then have "length (hd ?c) = sum_list (map length trajs)"
      using length_values_along[OF assms, of 0] False by simp
    then show ?thesis
      unfolding rectangular_def list_all_iff
      using length_values_along[OF assms] by auto
  qed
  have "list_ex (list_ex id) ?c
          \<longleftrightarrow> (\<exists>i < length (conditions p). list_ex id (values_along p trajs i))"
    by (auto simp: list_ex_iff)
  also have "\<dots> \<longleftrightarrow> (\<exists>i < length (conditions p).
                       \<exists>t \<in> set trajs. list_ex id (call (conditions p ! i) t))"
    using values_along_true[of _ p trajs] by blast
  also have "\<dots> \<longleftrightarrow> (\<exists>t \<in> set trajs. holds_on p t)"
    unfolding holds_on_iff by blast
  also have "\<dots> \<longleftrightarrow> list_ex (holds_on p) trajs" by (simp add: list_ex_iff)
  finally have "list_ex (list_ex id) ?c = list_ex (holds_on p) trajs" .
  then show ?thesis
    using rect by (simp add: np_any_def np_asarray_Values and_then_def del: map_map)
qed

lemma first_fullfilled_recovered:
  assumes "list_ex (holds_on p) trajs"
  shows "\<exists>c g. first_fullfilled (map (values_along p trajs) [0..<length (conditions p)])
                 = Inr (c, g) \<and>
           c < length (conditions p) \<and> g < length (values_along p trajs c) \<and>
           values_along p trajs c ! g \<and>
           (\<forall>i h. i < length (conditions p) \<and> h < length (values_along p trajs i) \<and>
                  values_along p trajs i ! h \<longrightarrow> g \<le> h \<and> (h = g \<longrightarrow> c \<le> i))"
proof -
  let ?c = "map (values_along p trajs) [0..<length (conditions p)]"
  from assms obtain t where t: "t \<in> set trajs" "holds_on p t" by (auto simp: list_ex_iff)
  from t(2) obtain i0 where i0: "i0 < length (conditions p)"
    "list_ex id (call (conditions p ! i0) t)" unfolding holds_on_iff by blast
  then have "list_ex id (values_along p trajs i0)"
    using values_along_true[OF i0(1), of trajs] t(1) by blast
  then obtain b where "b \<in> set (values_along p trajs i0)" "b" by (auto simp: list_ex_iff)
  then obtain j0 where j0: "j0 < length (values_along p trajs i0)"
    "values_along p trajs i0 ! j0" by (auto simp: in_set_conv_nth)
  have a: "i0 < length ?c" "j0 < length (?c ! i0)" "?c ! i0 ! j0" using i0(1) j0 by simp_all
  from first_fullfilled_some[OF a] obtain c g where
    ff: "first_fullfilled ?c = Inr (c, g)" and c: "c < length ?c" and g: "g < length (?c ! c)"
    and tr: "?c ! c ! g"
    and least: "\<forall>i j. i < length ?c \<and> j < length (?c ! i) \<and> ?c ! i ! j
                  \<longrightarrow> g \<le> j \<and> (j = g \<longrightarrow> c \<le> i)"
    by blast
  have c': "c < length (conditions p)" using c by simp
  have g': "g < length (values_along p trajs c)" using g c' by simp
  have tr': "values_along p trajs c ! g" using tr c' by simp
  have least': "g \<le> h \<and> (h = g \<longrightarrow> c \<le> i)"
    if "i < length (conditions p)" "h < length (values_along p trajs i)"
      "values_along p trajs i ! h" for i h
  proof -
    have "i < length ?c \<and> h < length (?c ! i) \<and> ?c ! i ! h" using that by simp
    then show ?thesis using least by blast
  qed
  show ?thesis using ff c' g' tr' least' by blast
qed

text \<open>
  \<^verbatim>\<open>propagate\<close> up to its loop, when no condition holds on the starting configuration
  nor, on a continuation, on the recovered parts.
\<close>

lemma propagate_reaches_loop:
  assumes flags: "condition_func_is_coroutine p = map iscoroutinefunction (conditions p)"
    and start: "per_frame p starting_configuration" "\<not> holds_on p starting_configuration"
    and cont: "continuation \<Longrightarrow>
                 conditions p \<noteq> [] \<and> recovered get_all_traj_parts p workdir deffnm \<noteq> [] \<and>
                 (\<forall>t \<in> set (recovered get_all_traj_parts p workdir deffnm).
                    per_frame p t \<and> \<not> holds_on p t)"
  shows "\<exists>cv. propagate get_all_traj_parts p starting_configuration workdir deffnm continuation
           = propagate_loop p (loop_engine p starting_configuration workdir deffnm continuation)
               False cv
               (if continuation then recovered get_all_traj_parts p workdir deffnm else [])
               (loop_counter p starting_configuration workdir deffnm continuation)
               (loop_events continuation)"
proof (cases continuation)
  case False
  then show ?thesis
    by (intro exI[of _ "map (\<lambda>c. Values (call c starting_configuration)) (conditions p)"])
       (simp add: propagate_def cond_vals_on_value[OF flags start(1)]
          np_any_values[OF start(1)] start(2)
          loop_engine_def loop_counter_def loop_events_def Let_def)
next
  case True
  let ?trajs = "recovered get_all_traj_parts p workdir deffnm"
  from cont[OF True] have ne: "conditions p \<noteq> []" "?trajs \<noteq> []"
    and pf: "\<forall>t \<in> set ?trajs. per_frame p t" and q: "\<forall>t \<in> set ?trajs. \<not> holds_on p t"
    by auto
  have any: "np_any (map Values (map (values_along p ?trajs) [0..<length (conditions p)]))
               = Inr False"
    using np_any_recovered[OF pf] q by (simp add: list_ex_iff del: map_map)
  have t: "get_all_traj_parts workdir deffnm (construct (engine_cls p) (engine_kwargs p))
             = ?trajs"
    by (simp add: recovered_def)
  show ?thesis
    by (intro exI[of _ "map Values (map (values_along p ?trajs) [0..<length (conditions p)])"])
       (simp add: propagate_def cond_vals_on_value[OF flags start(1)]
          np_any_values[OF start(1)] start(2)
          True t recovered_values[OF flags pf] recovered_concatenated[OF ne pf] any
          loop_engine_def loop_counter_def loop_events_def Let_def del: map_map)
qed

lemma propagate_recovered_fullfilled:
  assumes flags: "condition_func_is_coroutine p = map iscoroutinefunction (conditions p)"
    and start: "per_frame p starting_configuration" "\<not> holds_on p starting_configuration"
    and ne: "conditions p \<noteq> []" "recovered get_all_traj_parts p workdir deffnm \<noteq> []"
    and pf: "\<forall>t \<in> set (recovered get_all_traj_parts p workdir deffnm). per_frame p t"
    and h: "list_ex (holds_on p) (recovered get_all_traj_parts p workdir deffnm)"
    and ff: "first_fullfilled
               (map (values_along p (recovered get_all_traj_parts p workdir deffnm))
                  [0..<length (conditions p)]) = Inr (c, g)"
  shows "propagate get_all_traj_parts p starting_configuration workdir deffnm True
           = Some ([EngineCreated, GotTrajParts],
                   Inr (recovered get_all_traj_parts p workdir deffnm, c))"
proof -
  let ?trajs = "recovered get_all_traj_parts p workdir deffnm"
  have any: "np_any (map Values (map (values_along p ?trajs) [0..<length (conditions p)]))
               = Inr True"
    using np_any_recovered[OF pf] h by (simp del: map_map)
  have t: "get_all_traj_parts workdir deffnm (construct (engine_cls p) (engine_kwargs p))
             = ?trajs"
    by (simp add: recovered_def)
  show ?thesis
    by (simp add: propagate_def cond_vals_on_value[OF flags start(1)]
          np_any_values[OF start(1)] start(2)
          t recovered_values[OF flags pf] recovered_concatenated[OF ne pf] any ff and_then_def
          Let_def del: map_map)
qed

section \<open>The claims\<close>





text \<open>
  Claim C3. Whatever address \<open>(last_part_idx, first_frame_in_part)\<close> the locator returns
  for a segment list, \<^verbatim>\<open>cut_and_concatenate\<close> passes the segments up to and including
  \<open>last_part_idx\<close> to the concatenator, with the slice \<open>(0, None, 1)\<close> for each segment
  before \<open>last_part_idx\<close> and the slice \<open>(0, first_frame_in_part + 1, 1)\<close> for the last
  one. The first slice selects a whole segment, the second the frames \<open>0\<close> through
  \<open>first_frame_in_part\<close>, so the output is the earlier segments in order followed by
  that prefix of the last one.
\<close>

theorem cut_and_concatenate_slice_plan:
  assumes "collect (map (condition_vals_for_traj conds is_coroutine) trajs) = Inr cond_vals"
    and "locate cond_vals = Inr (cond, g, last_part_idx, first_frame_in_part)"
  shows "cut_and_concatenate_plan conds is_coroutine trajs =
           Inr ((take (last_part_idx + 1) trajs,
                 replicate last_part_idx (0, None, 1)
                 @ [(0, Some (first_frame_in_part + 1), 1)]), cond) \<and>
         last_part_idx < length trajs \<and> 0 \<le> first_frame_in_part \<and>
         (\<forall>t \<in> set (take last_part_idx trajs). py_slice t (0, None, 1) = Inr t) \<and>
         py_slice (trajs ! last_part_idx) (0, Some (first_frame_in_part + 1), 1)
           = Inr (take (nat first_frame_in_part + 1) (trajs ! last_part_idx)) \<and>
         cut_and_concatenate conds is_coroutine trajs =
           Inr (concat (take last_part_idx trajs)
                @ take (nat first_frame_in_part + 1) (trajs ! last_part_idx), cond)"
proof -
  have "length cond_vals = length trajs" using collect_length[OF assms(1)] by simp
  with locate_sound[OF assms(2)]
  have b: "last_part_idx < length trajs" "0 \<le> first_frame_in_part" by auto
  have s: "py_slice (trajs ! last_part_idx) (0, Some (first_frame_in_part + 1), 1)
           = Inr (take (nat first_frame_in_part + 1) (trajs ! last_part_idx))"
    using b(2) by (simp add: py_slice_prefix nat_add_distrib)
  show ?thesis
    using cut_and_concatenate_result[OF assms] b s
    by (simp add: cut_slices_replicate py_slice_full)
qed

theorem cut_and_concatenate_slice_plan_witness:
  "collect (map (condition_vals_for_traj [Blocking (map (\<lambda>x. 5 < x))] [False])
      [[0, 1, 2], [3, 4, 6, 7 :: nat]])
     = Inr [[Values [False, False, False]], [Values [False, False, True, True]]] \<and>
   locate [[Values [False, False, False]], [Values [False, False, True, True]]]
     = Inr (0, 5, 1, 2) \<and>
   cut_and_concatenate_plan [Blocking (map (\<lambda>x. 5 < x))] [False] [[0, 1, 2], [3, 4, 6, 7 :: nat]]
     = Inr (([[0, 1, 2], [3, 4, 6, 7]], [(0, None, 1), (0, Some 3, 1)]), 0) \<and>
   cut_and_concatenate [Blocking (map (\<lambda>x. 5 < x))] [False] [[0, 1, 2], [3, 4, 6, 7 :: nat]]
     = Inr ([0, 1, 2, 3, 4, 6], 0)"
proof -
  have ev: "collect (map (condition_vals_for_traj [Blocking (map (\<lambda>x. 5 < x))] [False])
      [[0, 1, 2], [3, 4, 6, 7 :: nat]])
     = Inr [[Values [False, False, False]], [Values [False, False, True, True]]]"
    by (simp add: condition_vals_for_traj_def)
  have lc: "locate [[Values [False, False, False]], [Values [False, False, True, True]]]
              = Inr (0, 5, 1, 2)"
    by code_simp
  show ?thesis
    using cut_and_concatenate_slice_plan[OF ev lc] ev lc by (simp add: numeral_2_eq_2)
qed

text \<open>
  Claim C5. For a single segment whose first frame satisfying a condition is its local
  frame \<open>k\<close>, the plan of \<^verbatim>\<open>cut_and_concatenate\<close> is that one segment with the slice
  \<open>(0, k + 1, 1)\<close>, which selects the frames \<open>0\<close> through \<open>k\<close>, and the stitched output
  has exactly \<open>k + 1\<close> frames. The evaluator returns the values of the conditions, one
  per frame of the segment.
\<close>

theorem single_segment_output_length:
  assumes "condition_vals_for_traj conds is_coroutine t = Inr (map Values m)"
    and "consistent n [m]" and "length (hd m) = length t"
    and "c0 < n" and "k < length (m ! c0)" and "m ! c0 ! k"
    and "\<forall>c f. c < n \<and> f < k \<longrightarrow> \<not> m ! c ! f"
  shows "\<exists>cond out.
           cut_and_concatenate_plan conds is_coroutine [t]
             = Inr (([t], [(0, Some (int k + 1), 1)]), cond) \<and>
           py_slice t (0, Some (int k + 1), 1) = Inr (take (k + 1) t) \<and>
           cut_and_concatenate conds is_coroutine [t] = Inr (out, cond) \<and>
           out = take (k + 1) t \<and> length out = k + 1"
proof -
  have fa: "frame_axis [m] c = m ! c" for c by (simp add: frame_axis_def)
  have "\<exists>cond g part loc.
           locate (map (map Values) [m]) = Inr (cond, g, part, loc) \<and>
           cond < n \<and> g < length (frame_axis [m] cond) \<and> frame_axis [m] cond ! g \<and>
           (\<forall>c' g'. c' < n \<and> g' < length (frame_axis [m] c') \<and> frame_axis [m] c' ! g'
                \<longrightarrow> g \<le> g' \<and> (g' = g \<longrightarrow> cond \<le> c')) \<and>
           part < length [m] \<and> 0 \<le> loc \<and> loc < int (length (hd ([m] ! part))) \<and>
           int (sum_list (map (\<lambda>a. length (hd a)) (take part [m]))) + loc = int g \<and>
           [m] ! part ! cond ! nat loc"
    by (rule locate_spec[OF assms(2), of c0 k]) (use assms fa in auto)
  then obtain cond g part loc where lc: "locate [map Values m] = Inr (cond, g, part, loc)"
    and c: "cond < n" "m ! cond ! g"
    and least: "\<forall>c' g'. c' < n \<and> g' < length (m ! c') \<and> m ! c' ! g'
                \<longrightarrow> g \<le> g' \<and> (g' = g \<longrightarrow> cond \<le> c')"
    and p: "part < length [m]"
    and s: "int (sum_list (map (\<lambda>a. length (hd a)) (take part [m]))) + loc = int g"
    unfolding fa list.map by blast
  have "g \<le> k" using least assms(4,5,6) by blast
  moreover have "\<not> g < k" using assms(7) c by blast
  ultimately have gk: "g = k" by simp
  have part0: "part = 0" using p by simp
  with s gk have loc: "loc = int k" by simp
  have ev: "collect (map (condition_vals_for_traj conds is_coroutine) [t])
              = Inr [map Values m]"
    using assms(1) by simp
  have rect: "rectangular m \<and> length m = n" using consistentD(3)[OF assms(2)] by simp
  have "length (m ! c0) = length (hd m)" using rect assms(4) by (simp add: rectangular_nth)
  then have kt: "k < length t" using assms(3,5) by simp
  have sl: "py_slice t (0, Some (int k + 1), 1) = Inr (take (k + 1) t)"
    by (simp add: py_slice_prefix nat_add_distrib)
  show ?thesis
    using cut_and_concatenate_result[OF ev lc] part0 loc kt sl
    by (simp add: cut_slices_replicate)
qed

theorem single_segment_output_length_witness:
  "condition_vals_for_traj [Blocking (map (\<lambda>x. 5 < x))] [False] [3, 4, 6, 7 :: nat]
     = Inr [Values [False, False, True, True]] \<and>
   consistent 1 [[[False, False, True, True]]] \<and>
   cut_and_concatenate [Blocking (map (\<lambda>x. 5 < x))] [False] [[3, 4, 6, 7 :: nat]]
     = Inr ([3, 4, 6], 0)"
proof -
  let ?m = "[[False, False, True, True]]"
  have ev: "condition_vals_for_traj [Blocking (map (\<lambda>x. 5 < x))] [False] [3, 4, 6, 7 :: nat]
     = Inr (map Values ?m)"
    by (simp add: condition_vals_for_traj_def)
  have con: "consistent 1 [?m]" by (simp add: consistent_def rectangular_def)
  have len: "length (hd ?m) = length [3, 4, 6, 7 :: nat]" by simp
  have none: "\<forall>c f. c < (1::nat) \<and> f < (2::nat) \<longrightarrow> \<not> ?m ! c ! f"
    by (auto simp: less_Suc_eq numeral_2_eq_2)
  obtain cond out where
    "cut_and_concatenate [Blocking (map (\<lambda>x. 5 < x))] [False] [[3, 4, 6, 7 :: nat]] = Inr (out, cond)"
    "out = take (2 + 1) [3, 4, 6, 7 :: nat]"
    using single_segment_output_length[OF ev con len _ _ _ none, of 0] by auto
  moreover have "cut_and_concatenate [Blocking (map (\<lambda>x. 5 < x))] [False] [[3, 4, 6, 7 :: nat]]
     = Inr ([3, 4, 6], 0)"
    by code_simp
  ultimately show ?thesis using ev con by simp
qed


text \<open>
  Claim C10. \<^verbatim>\<open>cut_and_concatenate\<close> is defined exactly when some entry of the condition
  matrices is true. With consistent matrices of values the evaluator returns, one value
  per frame of their segment: if some entry is true, the locator returns a segment index below the number
  of segments and a local frame from \<open>0\<close> up to, but not including, the length of that
  segment, every index it used is in bounds, and the method returns an output
  trajectory; if no entry is true, \<^verbatim>\<open>np.argmin\<close> is given an empty array and the method
  fails with its error instead of returning.
\<close>

theorem cut_and_concatenate_needs_true_entry:
  assumes "collect (map (condition_vals_for_traj conds is_coroutine) trajs)
             = Inr (map (map Values) cond_vals)"
    and "consistent n cond_vals"
    and "map (\<lambda>a. length (hd a)) cond_vals = map length trajs"
  shows "((\<exists>c g. c < n \<and> g < length (frame_axis cond_vals c) \<and> frame_axis cond_vals c ! g) \<longrightarrow>
            (\<exists>cond g part loc out.
               locate (map (map Values) cond_vals) = Inr (cond, g, part, loc) \<and>
               np_where2 (map (frame_axis cond_vals) [0..<n]) \<noteq> [] \<and>
               part < length trajs \<and> part < length cond_vals \<and>
               cond < length (cond_vals ! part) \<and>
               0 \<le> loc \<and> nat loc < length (trajs ! part) \<and>
               nat loc < length (cond_vals ! part ! cond) \<and>
               cut_and_concatenate conds is_coroutine trajs = Inr (out, cond))) \<and>
         (\<not> (\<exists>c g. c < n \<and> g < length (frame_axis cond_vals c) \<and> frame_axis cond_vals c ! g) \<longrightarrow>
            np_where2 (map (frame_axis cond_vals) [0..<n]) = [] \<and>
            cut_and_concatenate conds is_coroutine trajs = Inl ValueError)"
proof (intro conjI impI)
  assume "\<exists>c g. c < n \<and> g < length (frame_axis cond_vals c) \<and> frame_axis cond_vals c ! g"
  then obtain c0 g0 where t: "c0 < n" "g0 < length (frame_axis cond_vals c0)"
    "frame_axis cond_vals c0 ! g0"
    by blast
  from locate_spec[OF assms(2) t] obtain cond g part loc where
    lc: "locate (map (map Values) cond_vals) = Inr (cond, g, part, loc)" and c: "cond < n"
    and p: "part < length cond_vals" and l: "0 \<le> loc"
    "loc < int (length (hd (cond_vals ! part)))"
    by blast
  have len: "length cond_vals = length trajs" using collect_length[OF assms(1)] by simp
  have mem: "cond_vals ! part \<in> set cond_vals" using p by simp
  have rl: "rectangular (cond_vals ! part)" "length (cond_vals ! part) = n"
    using consistentD(3)[OF assms(2) mem] by auto
  have row: "length (cond_vals ! part ! cond) = length (hd (cond_vals ! part))"
    using rl c by (simp add: rectangular_nth)
  have "map (\<lambda>a. length (hd a)) cond_vals ! part = map length trajs ! part"
    using assms(3) by simp
  then have tl: "length (hd (cond_vals ! part)) = length (trajs ! part)"
    using p len by simp
  have "(c0, g0) \<in> set (np_where2 (map (frame_axis cond_vals) [0..<n]))"
    using t by (simp add: set_np_where2)
  then have ne: "np_where2 (map (frame_axis cond_vals) [0..<n]) \<noteq> []" by auto
  have "cut_and_concatenate conds is_coroutine trajs
          = Inr (concat (take part trajs) @ take (nat loc + 1) (trajs ! part), cond)"
    by (rule cut_and_concatenate_result(2)[OF assms(1) lc])
  with lc ne p len c rl(2) l row tl
  show "\<exists>cond g part loc out.
               locate (map (map Values) cond_vals) = Inr (cond, g, part, loc) \<and>
               np_where2 (map (frame_axis cond_vals) [0..<n]) \<noteq> [] \<and>
               part < length trajs \<and> part < length cond_vals \<and>
               cond < length (cond_vals ! part) \<and>
               0 \<le> loc \<and> nat loc < length (trajs ! part) \<and>
               nat loc < length (cond_vals ! part ! cond) \<and>
               cut_and_concatenate conds is_coroutine trajs = Inr (out, cond)"
    by (intro exI[of _ cond] exI[of _ g] exI[of _ part] exI[of _ loc]
          exI[of _ "concat (take part trajs) @ take (nat loc + 1) (trajs ! part)"]) simp
next
  assume no: "\<not> (\<exists>c g. c < n \<and> g < length (frame_axis cond_vals c) \<and> frame_axis cond_vals c ! g)"
  have "set (np_where2 (map (frame_axis cond_vals) [0..<n])) = {}"
    using no by (auto simp: set_np_where2)
  then show "np_where2 (map (frame_axis cond_vals) [0..<n]) = []" by simp
next
  assume no: "\<not> (\<exists>c g. c < n \<and> g < length (frame_axis cond_vals c) \<and> frame_axis cond_vals c ! g)"
  have "locate (map (map Values) cond_vals) = Inl ValueError"
    by (rule locate_no_true[OF assms(2) no])
  then show "cut_and_concatenate conds is_coroutine trajs = Inl ValueError"
    by (simp add: cut_and_concatenate_def cut_and_concatenate_plan_def assms(1) and_then_def)
qed

theorem cut_and_concatenate_needs_true_entry_witness:
  "collect (map (condition_vals_for_traj [Blocking (map (\<lambda>x. 5 < x))] [False])
      [[0, 1, 2], [3, 4, 6, 7 :: nat]])
     = Inr [[Values [False, False, False]], [Values [False, False, True, True]]] \<and>
   consistent 1 [[[False, False, False]], [[False, False, True, True]]] \<and>
   frame_axis [[[False, False, False]], [[False, False, True, True]]] 0 ! 5 \<and>
   cut_and_concatenate [Blocking (map (\<lambda>x. 5 < x))] [False] [[0, 1, 2], [3, 4, 6, 7 :: nat]]
     = Inr ([0, 1, 2, 3, 4, 6], 0) \<and>
   collect (map (condition_vals_for_traj [Blocking (map (\<lambda>x. 5 < x))] [False])
      [[0, 1, 2], [3, 4 :: nat]])
     = Inr [[Values [False, False, False]], [Values [False, False]]] \<and>
   consistent 1 [[[False, False, False]], [[False, False]]] \<and>
   cut_and_concatenate [Blocking (map (\<lambda>x. 5 < x))] [False] [[0, 1, 2], [3, 4 :: nat]]
     = Inl ValueError"
proof -
  let ?conds = "[Blocking (map (\<lambda>x. (5::nat) < x))]"
  let ?cv = "[[[False, False, False]], [[False, False, True, True]]]"
  let ?cw = "[[[False, False, False]], [[False, False]]]"
  have ev: "collect (map (condition_vals_for_traj ?conds [False]) [[0, 1, 2], [3, 4, 6, 7]])
     = Inr (map (map Values) ?cv)"
    by (simp add: condition_vals_for_traj_def)
  have con: "consistent 1 ?cv" by (simp add: consistent_def rectangular_def)
  have lens: "map (\<lambda>a. length (hd a)) ?cv = map length [[0, 1, 2], [3, 4, 6, 7 :: nat]]"
    by simp
  have tr: "frame_axis ?cv 0 ! 5" by (simp add: frame_axis_def)
  have some: "\<exists>c g. c < (1::nat) \<and> g < length (frame_axis ?cv c) \<and> frame_axis ?cv c ! g"
    by (intro exI[of _ 0] exI[of _ 5]) (simp add: frame_axis_def)
  from cut_and_concatenate_needs_true_entry[OF ev con lens] some
  obtain cond out where
    a: "cut_and_concatenate ?conds [False] [[0, 1, 2], [3, 4, 6, 7]] = Inr (out, cond)"
    by blast
  have a': "cut_and_concatenate ?conds [False] [[0, 1, 2], [3, 4, 6, 7]]
              = Inr ([0, 1, 2, 3, 4, 6], 0)"
    by code_simp
  have ew: "collect (map (condition_vals_for_traj ?conds [False]) [[0, 1, 2], [3, 4]])
     = Inr (map (map Values) ?cw)"
    by (simp add: condition_vals_for_traj_def)
  have cow: "consistent 1 ?cw" by (simp add: consistent_def rectangular_def)
  have lew: "map (\<lambda>a. length (hd a)) ?cw = map length [[0, 1, 2], [3, 4 :: nat]]"
    by simp
  have none: "\<not> (\<exists>c g. c < (1::nat) \<and> g < length (frame_axis ?cw c) \<and> frame_axis ?cw c ! g)"
    by (auto simp: frame_axis_def nth_Cons' )
  from cut_and_concatenate_needs_true_entry[OF ew cow lew] none
  have b: "cut_and_concatenate ?conds [False] [[0, 1, 2], [3, 4]] = Inl ValueError"
    by blast
  from a a' have "out = [0, 1, 2, 3, 4, 6] \<and> cond = 0" by simp
  with a b ev con tr ew cow show ?thesis by simp
qed


text \<open>
  Claim C2. When the minus state first holds at local frame \<open>m\<close> of minus segment \<open>j\<close>
  and the plus state first holds at local frame \<open>p\<close> of plus segment \<open>k\<close>, the plan of
  \<^verbatim>\<open>construct_TP_from_plus_and_minus_traj_segments\<close> reads minus segment \<open>j\<close> with the
  slice \<open>(m, None, -1)\<close>, that is from frame \<open>m\<close> down to frame \<open>0\<close>, then the minus
  segments \<open>j - 1\<close> down to \<open>0\<close> fully reversed; the first read of the plus chain is its
  segment \<open>0\<close> from frame \<open>1\<close>, later plus segments before \<open>k\<close> are read fully, and
  segment \<open>k\<close> is read forward through frame \<open>p\<close>. When the frames of the minus chain
  are pairwise different and the starting configuration, frame \<open>0\<close> of minus segment
  \<open>0\<close>, does not come back in the plus chain after its frame \<open>0\<close>, the output holds it
  exactly once. For minus segments of 5 and 3 frames with the state at global frame 2
  and one plus segment of 4 frames with the state at local frame 1, the output has 4
  frames.
\<close>

theorem two_way_join_plan:
  assumes "state_vals_of state_funcs minus_state minus_trajs = Inr mv"
    and "state_vals_of state_funcs plus_state plus_trajs = Inr pv"
    and "map length mv = map length minus_trajs"
    and "map length pv = map length plus_trajs"
    and "first_true_at mv j m" and "first_true_at pv k p"
  shows "construct_TP_plan minus_trajs minus_state plus_trajs plus_state state_funcs =
           Inr ([minus_trajs ! j] @ map (\<lambda>i. minus_trajs ! i) (rev [0..<j])
                @ (if 0 < k
                   then [plus_trajs ! 0] @ map (\<lambda>i. plus_trajs ! i) [1..<k] @ [plus_trajs ! k]
                   else [plus_trajs ! 0]),
                [(int m, None, - 1)] @ replicate j (- 1, None, - 1)
                @ (if 0 < k
                   then [(1, None, 1)] @ replicate (k - 1) (0, None, 1)
                        @ [(0, Some (int p + 1), 1)]
                   else [(1, Some (int p + 1), 1)])) \<and>
         py_slice (minus_trajs ! j) (int m, None, - 1)
           = Inr (rev (take (m + 1) (minus_trajs ! j))) \<and>
         (\<forall>i < j. py_slice (minus_trajs ! i) (- 1, None, - 1) = Inr (rev (minus_trajs ! i))) \<and>
         py_slice (plus_trajs ! 0) (1, None, 1) = Inr (drop 1 (plus_trajs ! 0)) \<and>
         py_slice (plus_trajs ! 0) (1, Some (int p + 1), 1)
           = Inr (drop 1 (take (p + 1) (plus_trajs ! 0))) \<and>
         (\<forall>i < k. py_slice (plus_trajs ! i) (0, None, 1) = Inr (plus_trajs ! i)) \<and>
         py_slice (plus_trajs ! k) (0, Some (int p + 1), 1)
           = Inr (take (p + 1) (plus_trajs ! k)) \<and>
         construct_TP_from_plus_and_minus_traj_segments minus_trajs minus_state plus_trajs
             plus_state state_funcs
           = Inr (rev (take (m + 1) (minus_trajs ! j))
                  @ concat (map (\<lambda>i. rev (minus_trajs ! i)) (rev [0..<j]))
                  @ (if 0 < k
                     then drop 1 (plus_trajs ! 0) @ concat (map (\<lambda>i. plus_trajs ! i) [1..<k])
                          @ take (p + 1) (plus_trajs ! k)
                     else drop 1 (take (p + 1) (plus_trajs ! 0)))) \<and>
         (minus_trajs ! 0 \<noteq> [] \<and> distinct (concat minus_trajs) \<and>
          minus_trajs ! 0 ! 0 \<notin> set (drop 1 (plus_trajs ! 0)) \<and>
          (\<forall>i. 0 < i \<and> i < length plus_trajs \<longrightarrow> minus_trajs ! 0 ! 0 \<notin> set (plus_trajs ! i))
          \<longrightarrow> count_list
                (rev (take (m + 1) (minus_trajs ! j))
                  @ concat (map (\<lambda>i. rev (minus_trajs ! i)) (rev [0..<j]))
                  @ (if 0 < k
                     then drop 1 (plus_trajs ! 0) @ concat (map (\<lambda>i. plus_trajs ! i) [1..<k])
                          @ take (p + 1) (plus_trajs ! k)
                     else drop 1 (take (p + 1) (plus_trajs ! 0))))
                (minus_trajs ! 0 ! 0) = 1) \<and>
         map_sum id length
           (construct_TP_from_plus_and_minus_traj_segments
              [[0, 1, 2, 3, 4], [5, 6, 7 :: nat]] 0 [[10, 11, 12, 13]] 1
              [Coroutine (map (\<lambda>x. x = 2)), Coroutine (map (\<lambda>x. x = 11))])
           = Inr 4"
proof -
  have fm: "j < length mv" "m < length (mv ! j)" "vs = mv \<Longrightarrow> vs ! j ! m" for vs
    using assms(5) by (auto simp: first_true_at_def)
  have fp: "k < length pv" "p < length (pv ! k)"
    using assms(6) by (auto simp: first_true_at_def)
  have cm: "chain_address mv = Inr (j, int m)"
    by (rule chain_address_first_true) (use assms(5) in \<open>auto simp: first_true_at_def\<close>)
  have cp: "chain_address pv = Inr (k, int p)"
    by (rule chain_address_first_true) (use assms(6) in \<open>auto simp: first_true_at_def\<close>)
  have lm: "length mv = length minus_trajs" using assms(3) by (metis length_map)
  have lp: "length pv = length plus_trajs" using assms(4) by (metis length_map)
  have j: "j < length minus_trajs" using fm(1) lm by simp
  have k: "k < length plus_trajs" using fp(1) lp by simp
  have "map length mv ! j = map length minus_trajs ! j" using assms(3) by simp
  then have m: "m < length (minus_trajs ! j)" using fm(1,2) j by simp
  have plan: "construct_TP_plan minus_trajs minus_state plus_trajs plus_state state_funcs
                = Inr (fst (minus_plan minus_trajs j (int m)) @ fst (plus_plan plus_trajs k (int p)),
                       snd (minus_plan minus_trajs j (int m)) @ snd (plus_plan plus_trajs k (int p)))"
    by (simp add: construct_TP_plan_def assms(1,2) cm cp and_then_def split_beta)
  have c1: "construct_TP_plan minus_trajs minus_state plus_trajs plus_state state_funcs =
           Inr ([minus_trajs ! j] @ map (\<lambda>i. minus_trajs ! i) (rev [0..<j])
                @ (if 0 < k
                   then [plus_trajs ! 0] @ map (\<lambda>i. plus_trajs ! i) [1..<k] @ [plus_trajs ! k]
                   else [plus_trajs ! 0]),
                [(int m, None, - 1)] @ replicate j (- 1, None, - 1)
                @ (if 0 < k
                   then [(1, None, 1)] @ replicate (k - 1) (0, None, 1)
                        @ [(0, Some (int p + 1), 1)]
                   else [(1, Some (int p + 1), 1)]))"
    unfolding plan by (simp add: minus_plan_def plus_plan_def map_replicate_const)
  have s1: "py_slice (minus_trajs ! j) (int m, None, - 1)
              = Inr (rev (take (m + 1) (minus_trajs ! j)))"
    using py_slice_down_from[OF m] by simp
  have s5: "py_slice (plus_trajs ! 0) (1, Some (int p + 1), 1)
           = Inr (drop 1 (take (p + 1) (plus_trajs ! 0)))"
    using py_slice_tail_until[of "int p" "plus_trajs ! 0"] by simp
  have s7: "py_slice (plus_trajs ! k) (0, Some (int p + 1), 1)
           = Inr (take (p + 1) (plus_trajs ! k))"
    using py_slice_prefix[of "int p + 1" "plus_trajs ! k"] by (simp add: nat_add_distrib)
  have om: "concatenate (fst (minus_plan minus_trajs j (int m)))
              (snd (minus_plan minus_trajs j (int m)))
            = Inr (rev (take (Suc m) (minus_trajs ! j))
                   @ concat (map (\<lambda>i. rev (minus_trajs ! i)) (rev [0..<j])))"
    by (rule concatenate_minus_plan[OF j m])
  have op: "concatenate (fst (plus_plan plus_trajs k (int p)))
              (snd (plus_plan plus_trajs k (int p)))
            = Inr (if 0 < k
                  then drop 1 (plus_trajs ! 0) @ concat (map (\<lambda>i. plus_trajs ! i) [1..<k])
                       @ take (nat (int p) + 1) (plus_trajs ! k)
                  else drop 1 (take (nat (int p) + 1) (plus_trajs ! 0)))"
    by (rule concatenate_plus_plan) simp
  have "concatenate
          (fst (minus_plan minus_trajs j (int m)) @ fst (plus_plan plus_trajs k (int p)))
          (snd (minus_plan minus_trajs j (int m)) @ snd (plus_plan plus_trajs k (int p)))
        = Inr ((rev (take (Suc m) (minus_trajs ! j))
                   @ concat (map (\<lambda>i. rev (minus_trajs ! i)) (rev [0..<j])))
               @ (if 0 < k
                  then drop 1 (plus_trajs ! 0) @ concat (map (\<lambda>i. plus_trajs ! i) [1..<k])
                       @ take (nat (int p) + 1) (plus_trajs ! k)
                  else drop 1 (take (nat (int p) + 1) (plus_trajs ! 0))))"
    by (rule concatenate_append[OF om op length_minus_plan])
  then have c8: "construct_TP_from_plus_and_minus_traj_segments minus_trajs minus_state plus_trajs
             plus_state state_funcs
           = Inr (rev (take (m + 1) (minus_trajs ! j))
                  @ concat (map (\<lambda>i. rev (minus_trajs ! i)) (rev [0..<j]))
                  @ (if 0 < k
                     then drop 1 (plus_trajs ! 0) @ concat (map (\<lambda>i. plus_trajs ! i) [1..<k])
                          @ take (p + 1) (plus_trajs ! k)
                     else drop 1 (take (p + 1) (plus_trajs ! 0))))"
    by (simp add: construct_TP_from_plus_and_minus_traj_segments_def plan and_then_def)
  have c9: "count_list
                (rev (take (m + 1) (minus_trajs ! j))
                  @ concat (map (\<lambda>i. rev (minus_trajs ! i)) (rev [0..<j]))
                  @ (if 0 < k
                     then drop 1 (plus_trajs ! 0) @ concat (map (\<lambda>i. plus_trajs ! i) [1..<k])
                          @ take (p + 1) (plus_trajs ! k)
                     else drop 1 (take (p + 1) (plus_trajs ! 0))))
                (minus_trajs ! 0 ! 0) = 1"
    if h: "minus_trajs ! 0 \<noteq> [] \<and> distinct (concat minus_trajs) \<and>
          minus_trajs ! 0 ! 0 \<notin> set (drop 1 (plus_trajs ! 0)) \<and>
          (\<forall>i. 0 < i \<and> i < length plus_trajs \<longrightarrow> minus_trajs ! 0 ! 0 \<notin> set (plus_trajs ! i))"
  proof -
    have a: "count_list (rev (take (Suc m) (minus_trajs ! j))
               @ concat (map (\<lambda>i. rev (minus_trajs ! i)) (rev [0..<j])))
               (minus_trajs ! 0 ! 0) = 1"
      by (rule count_start_in_minus_frames) (use j h in auto)
    have "minus_trajs ! 0 ! 0
            \<notin> set (if 0 < k
                  then drop 1 (plus_trajs ! 0) @ concat (map (\<lambda>i. plus_trajs ! i) [1..<k])
                       @ take (p + 1) (plus_trajs ! k)
                  else drop 1 (take (p + 1) (plus_trajs ! 0)))"
      by (rule start_not_in_plus_frames[OF k]) (use h in auto)
    then have b: "count_list (if 0 < k
                  then drop 1 (plus_trajs ! 0) @ concat (map (\<lambda>i. plus_trajs ! i) [1..<k])
                       @ take (p + 1) (plus_trajs ! k)
                  else drop 1 (take (p + 1) (plus_trajs ! 0))) (minus_trajs ! 0 ! 0) = 0"
      by (rule count_notin)
    have "count_list
            ((rev (take (Suc m) (minus_trajs ! j))
               @ concat (map (\<lambda>i. rev (minus_trajs ! i)) (rev [0..<j])))
             @ (if 0 < k
                  then drop 1 (plus_trajs ! 0) @ concat (map (\<lambda>i. plus_trajs ! i) [1..<k])
                       @ take (p + 1) (plus_trajs ! k)
                  else drop 1 (take (p + 1) (plus_trajs ! 0))))
            (minus_trajs ! 0 ! 0) = 1"
      unfolding count_list_append[of "rev (take (Suc m) (minus_trajs ! j))
               @ concat (map (\<lambda>i. rev (minus_trajs ! i)) (rev [0..<j]))"] a b by simp
    then show ?thesis by simp
  qed
  have ex: "map_sum id length
           (construct_TP_from_plus_and_minus_traj_segments
              [[0, 1, 2, 3, 4], [5, 6, 7 :: nat]] 0 [[10, 11, 12, 13]] 1
              [Coroutine (map (\<lambda>x. x = 2)), Coroutine (map (\<lambda>x. x = 11))])
           = Inr 4"
    by code_simp
  show ?thesis
    using c1 s1 s5 s7 c8 c9 ex by (simp add: py_slice_reversed py_slice_tail py_slice_full)
qed


theorem two_way_join_plan_witness:
  "state_vals_of [Coroutine (map (\<lambda>x. x = 2)), Coroutine (map (\<lambda>x. x = 11))] 0
      [[0, 1, 2, 3, 4], [5, 6, 7 :: nat]]
     = Inr [[False, False, True, False, False], [False, False, False]] \<and>
   state_vals_of [Coroutine (map (\<lambda>x. x = 2)), Coroutine (map (\<lambda>x. x = 11))] 1
      [[10, 11, 12, 13 :: nat]]
     = Inr [[False, True, False, False]] \<and>
   first_true_at [[False, False, True, False, False], [False, False, False]] 0 2 \<and>
   first_true_at [[False, True, False, False]] 0 1 \<and>
   construct_TP_plan [[0, 1, 2, 3, 4], [5, 6, 7 :: nat]] 0 [[10, 11, 12, 13]] 1
      [Coroutine (map (\<lambda>x. x = 2)), Coroutine (map (\<lambda>x. x = 11))]
     = Inr ([[0, 1, 2, 3, 4], [10, 11, 12, 13]], [(2, None, - 1), (1, Some 2, 1)]) \<and>
   construct_TP_from_plus_and_minus_traj_segments
      [[0, 1, 2, 3, 4], [5, 6, 7 :: nat]] 0 [[10, 11, 12, 13]] 1
      [Coroutine (map (\<lambda>x. x = 2)), Coroutine (map (\<lambda>x. x = 11))]
     = Inr [2, 1, 0, 11]"
proof -
  let ?sf = "[Coroutine (map (\<lambda>x. x = (2::nat))), Coroutine (map (\<lambda>x. x = 11))]"
  let ?mt = "[[0, 1, 2, 3, 4], [5, 6, 7 :: nat]]"
  let ?pt = "[[10, 11, 12, 13 :: nat]]"
  let ?mv = "[[False, False, True, False, False], [False, False, False]]"
  let ?pv = "[[False, True, False, False]]"
  have a: "state_vals_of ?sf 0 ?mt = Inr ?mv"
    by (simp add: state_vals_of_def py_index_def and_then_def asyncio_gather_def)
  have b: "state_vals_of ?sf 1 ?pt = Inr ?pv"
    by (simp add: state_vals_of_def py_index_def and_then_def asyncio_gather_def)
  have c: "map length ?mv = map length ?mt" by simp
  have d: "map length ?pv = map length ?pt" by simp
  have e: "first_true_at ?mv 0 2"
    by (auto simp: first_true_at_def less_Suc_eq numeral_2_eq_2)
  have f: "first_true_at ?pv 0 1"
    by (auto simp: first_true_at_def)
  show ?thesis
    using two_way_join_plan[OF a b c d e f] a b e f by (simp add: numeral_2_eq_2)
qed


text \<open>
  Claim C9. Whenever the constructor returns a propagator: if \<^verbatim>\<open>max_steps\<close> is given,
  the step budget is \<^verbatim>\<open>max_steps\<close>, whatever \<^verbatim>\<open>max_frames\<close> is; else if \<^verbatim>\<open>max_frames\<close> is
  given, the budget is \<^verbatim>\<open>max_frames\<close> times the output frequency that
  \<^verbatim>\<open>nstout_from_mdconfig\<close> derives from the engine configuration and the trajectory
  type; else the budget is infinite, and every step count is within it.
\<close>

theorem init_step_budget:
  assumes "init nstout_from_mdconfig conds cls kwargs walltime max_steps_arg max_frames_arg
             = Inr p"
  shows "\<exists>mdconfig nstout.
           kwargs ''mdconfig'' = Some mdconfig \<and>
           nstout_from_mdconfig mdconfig
             (case kwargs ''output_traj_type'' of Some t \<Rightarrow> t | None \<Rightarrow> output_traj_type cls)
             = Inr nstout \<and>
           (\<forall>s. max_steps_arg = Some s \<longrightarrow> max_steps p = Steps s) \<and>
           (\<forall>f. max_steps_arg = None \<and> max_frames_arg = Some f
                  \<longrightarrow> max_steps p = Steps (f * nstout)) \<and>
           (max_steps_arg = None \<and> max_frames_arg = None
              \<longrightarrow> max_steps p = Infinity \<and> (\<forall>n. within_limit n (max_steps p)))"
proof -
  let ?tt = "case kwargs ''output_traj_type'' of Some t \<Rightarrow> t | None \<Rightarrow> output_traj_type cls"
  obtain mdconfig where c: "kwargs ''mdconfig'' = Some mdconfig"
    using assms by (cases "kwargs ''mdconfig''") (auto simp: init_def and_then_def)
  obtain nstout where n: "nstout_from_mdconfig mdconfig ?tt = Inr nstout"
    using assms c
    by (cases "nstout_from_mdconfig mdconfig ?tt") (auto simp: init_def and_then_def)
  have "max_steps p =
          (case max_steps_arg of
             Some s \<Rightarrow> Steps s
           | None \<Rightarrow> (case max_frames_arg of Some f \<Rightarrow> Steps (f * nstout) | None \<Rightarrow> Infinity))"
    using assms c n by (auto simp: init_def and_then_def)
  then have "(\<forall>s. max_steps_arg = Some s \<longrightarrow> max_steps p = Steps s) \<and>
           (\<forall>f. max_steps_arg = None \<and> max_frames_arg = Some f
                  \<longrightarrow> max_steps p = Steps (f * nstout)) \<and>
           (max_steps_arg = None \<and> max_frames_arg = None
              \<longrightarrow> max_steps p = Infinity \<and> (\<forall>n. within_limit n (max_steps p)))"
    by auto
  with c n show ?thesis by blast
qed

theorem init_step_budget_witness:
  "map_sum id max_steps
     (init (\<lambda>c t. Inr (if t = ''xtc'' \<and> c = ''nstxout-compressed = 20'' then 20 else 1))
        [Blocking (map (\<lambda>x. (5::nat) < x))]
        \<lparr> output_traj_type = ''xtc'', construct = (\<lambda>k. 0 :: nat),
          prepare = (\<lambda>e sc wd dn. e), prepare_from_files = (\<lambda>e wd dn. e),
          run_walltime = (\<lambda>e wt. ([], e)), steps_done = (\<lambda>e. 0) \<rparr>
        [''mdconfig'' \<mapsto> ''nstxout-compressed = 20''] 1 (Some 700) (Some 3))
     = Inr (Steps 700) \<and>
   map_sum id max_steps
     (init (\<lambda>c t. Inr (if t = ''xtc'' \<and> c = ''nstxout-compressed = 20'' then 20 else 1))
        [Blocking (map (\<lambda>x. (5::nat) < x))]
        \<lparr> output_traj_type = ''xtc'', construct = (\<lambda>k. 0 :: nat),
          prepare = (\<lambda>e sc wd dn. e), prepare_from_files = (\<lambda>e wd dn. e),
          run_walltime = (\<lambda>e wt. ([], e)), steps_done = (\<lambda>e. 0) \<rparr>
        [''mdconfig'' \<mapsto> ''nstxout-compressed = 20''] 1 None (Some 3))
     = Inr (Steps 60) \<and>
   map_sum id max_steps
     (init (\<lambda>c t. Inr (if t = ''xtc'' \<and> c = ''nstxout-compressed = 20'' then 20 else 1))
        [Blocking (map (\<lambda>x. (5::nat) < x))]
        \<lparr> output_traj_type = ''xtc'', construct = (\<lambda>k. 0 :: nat),
          prepare = (\<lambda>e sc wd dn. e), prepare_from_files = (\<lambda>e wd dn. e),
          run_walltime = (\<lambda>e wt. ([], e)), steps_done = (\<lambda>e. 0) \<rparr>
        [''mdconfig'' \<mapsto> ''nstxout-compressed = 20''] 1 None None)
     = Inr Infinity"
proof -
  let ?n = "\<lambda>c t. (Inr (if t = ''xtc'' \<and> c = ''nstxout-compressed = 20'' then 20 else 1)
              :: error + int)"
  let ?conds = "[Blocking (map (\<lambda>x. (5::nat) < x))]"
  let ?cls = "\<lparr> output_traj_type = ''xtc'', construct = (\<lambda>k. 0 :: nat),
          prepare = (\<lambda>e sc wd dn. e), prepare_from_files = (\<lambda>e wd dn. e),
          run_walltime = (\<lambda>e wt. ([], e)), steps_done = (\<lambda>e. 0) \<rparr>
        :: (nat, nat, string) engine_class"
  let ?kw = "[''mdconfig'' \<mapsto> ''nstxout-compressed = 20'']"
  obtain p1 where p1: "init ?n ?conds ?cls ?kw 1 (Some 700) (Some 3) = Inr p1"
    by (simp add: init_def and_then_def)
  obtain p2 where p2: "init ?n ?conds ?cls ?kw 1 None (Some 3) = Inr p2"
    by (simp add: init_def and_then_def)
  obtain p3 where p3: "init ?n ?conds ?cls ?kw 1 None None = Inr p3"
    by (simp add: init_def and_then_def)
  from init_step_budget[OF p1] have a: "max_steps p1 = Steps 700" by blast
  from init_step_budget[OF p2] obtain nstout where
    "?n ''nstxout-compressed = 20'' ''xtc'' = Inr nstout" "max_steps p2 = Steps (3 * nstout)"
    by auto
  then have b: "max_steps p2 = Steps 60" by simp
  from init_step_budget[OF p3] have c: "max_steps p3 = Infinity" by blast
  show ?thesis unfolding p1 p2 p3 using a b c by simp
qed






text \<open>
  Claim C6. When some condition is already true on a frame of the starting
  configuration (the flags being those the setter computes, and every condition
  reporting one value per frame), \<^verbatim>\<open>propagate\<close> returns, whatever \<^verbatim>\<open>continuation\<close> is,
  the list holding exactly the starting configuration and the index \<open>c\<close> of a
  condition, with no event at all: no engine is created, nothing is prepared and no
  segment is requested. The index is the one first fulfilled: condition \<open>c\<close> is true at
  a frame \<open>f\<close>, no condition is true at an earlier frame, and no condition of lower
  index is true at \<open>f\<close>.
\<close>

theorem start_already_fullfilled:
  assumes "condition_func_is_coroutine p = map iscoroutinefunction (conditions p)"
    and "per_frame p starting_configuration"
    and "holds_on p starting_configuration"
  shows "\<exists>c f. propagate get_all_traj_parts p starting_configuration workdir deffnm
                 continuation
                 = Some ([], Inr ([starting_configuration], c)) \<and>
           c < length (conditions p) \<and> f < length starting_configuration \<and>
           call (conditions p ! c) starting_configuration ! f \<and>
           (\<forall>i j. i < length (conditions p) \<and> j < length starting_configuration \<and>
                  call (conditions p ! i) starting_configuration ! j
                  \<longrightarrow> f \<le> j \<and> (j = f \<longrightarrow> c \<le> i))"
proof -
  from first_fullfilled_values[OF assms(2,3)] obtain c f where
    ff: "first_fullfilled (map (\<lambda>c. call c starting_configuration) (conditions p)) = Inr (c, f)"
    and rest: "c < length (conditions p)" "f < length starting_configuration"
      "call (conditions p ! c) starting_configuration ! f"
      "\<forall>i j. i < length (conditions p) \<and> j < length starting_configuration \<and>
                  call (conditions p ! i) starting_configuration ! j
                  \<longrightarrow> f \<le> j \<and> (j = f \<longrightarrow> c \<le> i)"
    by blast
  have "propagate get_all_traj_parts p starting_configuration workdir deffnm continuation
          = Some ([], Inr ([starting_configuration], c))"
    by (simp add: propagate_def cond_vals_on_value[OF assms(1,2)] np_any_values[OF assms(2)]
          np_asarray_values[OF assms(2)] assms(3) ff and_then_def)
  with rest show ?thesis by blast
qed

theorem start_already_fullfilled_witness:
  "propagate (\<lambda>wd dn e. [])
     \<lparr> conditions = [Coroutine (map (\<lambda>x. 8 \<le> x)), Blocking (map (\<lambda>x. 5 \<le> x))],
       condition_func_is_coroutine = [True, False],
       engine_cls = \<lparr> output_traj_type = ''xtc'', construct = (\<lambda>k. 0 :: nat),
         prepare = (\<lambda>e sc wd dn. e), prepare_from_files = (\<lambda>e wd dn. e + 2),
         run_walltime = (\<lambda>e wt. ([3 * e + 1, 3 * e + 2, 3 * e + 3], e + 1)),
         steps_done = (\<lambda>e. 10 * int e) \<rparr>,
       engine_kwargs = Map.empty, walltime_per_part = 1, max_steps = Steps 50 \<rparr>
     [3, 6, 9 :: nat] ''w'' ''d'' False
     = Some ([], Inr ([[3, 6, 9]], 1)) \<and>
   propagate (\<lambda>wd dn e. [[0, 1], [2, 5]])
     \<lparr> conditions = [Coroutine (map (\<lambda>x. 8 \<le> x)), Blocking (map (\<lambda>x. 5 \<le> x))],
       condition_func_is_coroutine = [True, False],
       engine_cls = \<lparr> output_traj_type = ''xtc'', construct = (\<lambda>k. 0 :: nat),
         prepare = (\<lambda>e sc wd dn. e), prepare_from_files = (\<lambda>e wd dn. e + 2),
         run_walltime = (\<lambda>e wt. ([3 * e + 1, 3 * e + 2, 3 * e + 3], e + 1)),
         steps_done = (\<lambda>e. 10 * int e) \<rparr>,
       engine_kwargs = Map.empty, walltime_per_part = 1, max_steps = Steps 50 \<rparr>
     [9 :: nat] ''w'' ''d'' True
     = Some ([], Inr ([[9]], 0))"
proof -
  let ?cls = "\<lparr> output_traj_type = ''xtc'', construct = (\<lambda>k. 0 :: nat),
         prepare = (\<lambda>e sc wd dn. e), prepare_from_files = (\<lambda>e wd dn. e + 2),
         run_walltime = (\<lambda>e wt. ([3 * e + 1, 3 * e + 2, 3 * e + (3 :: nat)], e + 1)),
         steps_done = (\<lambda>e. 10 * int e) \<rparr> :: (nat, nat, string) engine_class"
  let ?p = "\<lparr> conditions = [Coroutine (map (\<lambda>x. 8 \<le> x)), Blocking (map (\<lambda>x. 5 \<le> x))],
       condition_func_is_coroutine = [True, False], engine_cls = ?cls,
       engine_kwargs = Map.empty, walltime_per_part = 1, max_steps = Steps 50 \<rparr>"
  have flags: "condition_func_is_coroutine ?p = map iscoroutinefunction (conditions ?p)"
    by simp
  have pf1: "per_frame ?p [3, 6, 9]" and h1: "holds_on ?p [3, 6, 9]"
    by (simp_all add: per_frame_def holds_on_def)
  have pf2: "per_frame ?p [9]" and h2: "holds_on ?p [9]"
    by (simp_all add: per_frame_def holds_on_def)
  from start_already_fullfilled[OF flags pf1 h1, of "\<lambda>wd dn e. []" "''w''" "''d''" False]
  obtain c where
    a: "propagate (\<lambda>wd dn e. []) ?p [3, 6, 9] ''w'' ''d'' False = Some ([], Inr ([[3, 6, 9]], c))"
    by blast
  from start_already_fullfilled[OF flags pf2 h2, of "\<lambda>wd dn e. [[0, 1], [2, 5]]" "''w''" "''d''"
         True]
  obtain c' where
    b: "propagate (\<lambda>wd dn e. [[0, 1], [2, 5]]) ?p [9] ''w'' ''d'' True
          = Some ([], Inr ([[9]], c'))"
    by blast
  have a': "propagate (\<lambda>wd dn e. []) ?p [3, 6, 9] ''w'' ''d'' False
              = Some ([], Inr ([[3, 6, 9]], 1))"
    by code_simp
  have b': "propagate (\<lambda>wd dn e. [[0, 1], [2, 5]]) ?p [9] ''w'' ''d'' True
              = Some ([], Inr ([[9]], 0))"
    by code_simp
  from a a' b b' show ?thesis by simp
qed


text \<open>
  Claim C4. Let \<^verbatim>\<open>propagate\<close> reach its loop (no condition holds on the starting
  configuration nor, on a continuation, on the recovered parts), let the first \<open>n\<close>
  segments the engine produces hold no true condition, and let the step counter be
  within \<^verbatim>\<open>max_steps\<close> before each of them is requested. If the step counter after
  these \<open>n\<close> segments exceeds \<^verbatim>\<open>max_steps\<close>, \<^verbatim>\<open>propagate\<close> raises \<open>MaxStepsReachedError\<close>
  after exactly \<open>n\<close> calls of \<^verbatim>\<open>run_walltime\<close>, and the error carries that step counter
  (the \<^verbatim>\<open>steps_done\<close> of the engine once a segment has been produced) and \<^verbatim>\<open>max_steps\<close>.
  If instead the counter is still within \<^verbatim>\<open>max_steps\<close> and a condition is true on the
  next segment, \<^verbatim>\<open>propagate\<close> raises nothing: it returns the segments, that one
  included, and a condition index, whatever the step counter is afterwards.
\<close>

theorem max_steps_reached:
  assumes flags: "condition_func_is_coroutine p = map iscoroutinefunction (conditions p)"
    and start: "per_frame p starting_configuration" "\<not> holds_on p starting_configuration"
    and cont: "continuation \<longrightarrow>
                 conditions p \<noteq> [] \<and> recovered get_all_traj_parts p workdir deffnm \<noteq> [] \<and>
                 (\<forall>t \<in> set (recovered get_all_traj_parts p workdir deffnm).
                    per_frame p t \<and> \<not> holds_on p t)"
    and e0: "e0 = loop_engine p starting_configuration workdir deffnm continuation"
    and c0: "c0 = loop_counter p starting_configuration workdir deffnm continuation"
    and quiet: "\<forall>k < n. per_frame p (segment p e0 k) \<and> \<not> holds_on p (segment p e0 k)"
    and within: "\<forall>k < n. within_limit (step_count p e0 c0 k) (max_steps p)"
  shows "(\<not> within_limit (step_count p e0 c0 n) (max_steps p) \<longrightarrow>
            propagate get_all_traj_parts p starting_configuration workdir deffnm continuation
              = Some (loop_events continuation @ replicate n RanWalltime,
                      Inl (MaxStepsReachedError (step_count p e0 c0 n) (max_steps p)))) \<and>
         (within_limit (step_count p e0 c0 n) (max_steps p) \<and>
          per_frame p (segment p e0 n) \<and> holds_on p (segment p e0 n) \<longrightarrow>
            (\<exists>c. propagate get_all_traj_parts p starting_configuration workdir deffnm
                    continuation
                    = Some (loop_events continuation @ replicate (Suc n) RanWalltime,
                            Inr ((if continuation
                                  then recovered get_all_traj_parts p workdir deffnm else [])
                                 @ map (segment p e0) [0..<Suc n], c))))"
proof -
  from propagate_reaches_loop[OF flags start, of continuation get_all_traj_parts workdir deffnm]
    cont
  obtain cv where
    loop: "propagate get_all_traj_parts p starting_configuration workdir deffnm continuation
             = propagate_loop p e0 False cv
                 (if continuation then recovered get_all_traj_parts p workdir deffnm else [])
                 c0 (loop_events continuation)"
    unfolding e0 c0 by blast
  have a: "propagate get_all_traj_parts p starting_configuration workdir deffnm continuation
              = Some (loop_events continuation @ replicate n RanWalltime,
                      Inl (MaxStepsReachedError (step_count p e0 c0 n) (max_steps p)))"
    if "\<not> within_limit (step_count p e0 c0 n) (max_steps p)"
    unfolding loop by (rule propagate_loop_reaches_error[OF flags quiet within that])
  have b: "\<exists>c. propagate get_all_traj_parts p starting_configuration workdir deffnm
                    continuation
                    = Some (loop_events continuation @ replicate (Suc n) RanWalltime,
                            Inr ((if continuation
                                  then recovered get_all_traj_parts p workdir deffnm else [])
                                 @ map (segment p e0) [0..<Suc n], c))"
    if "within_limit (step_count p e0 c0 n) (max_steps p)"
      "per_frame p (segment p e0 n)" "holds_on p (segment p e0 n)"
    unfolding loop
    using propagate_loop_reaches_condition[OF flags quiet within that,
            of cv "if continuation then recovered get_all_traj_parts p workdir deffnm else []"
               "loop_events continuation"]
    by blast
  from a b show ?thesis by blast
qed

theorem max_steps_reached_witness:
  "propagate (\<lambda>wd dn e. [])
     \<lparr> conditions = [Coroutine (map (\<lambda>x. 8 \<le> x)), Blocking (map (\<lambda>x. 5 \<le> x))],
       condition_func_is_coroutine = [True, False],
       engine_cls = \<lparr> output_traj_type = ''xtc'', construct = (\<lambda>k. 0 :: nat),
         prepare = (\<lambda>e sc wd dn. e), prepare_from_files = (\<lambda>e wd dn. e + 2),
         run_walltime = (\<lambda>e wt. ([3 * e + 1, 3 * e + 2, 3 * e + 3], e + 1)),
         steps_done = (\<lambda>e. 10 * int e) \<rparr>,
       engine_kwargs = Map.empty, walltime_per_part = 1, max_steps = Steps 5 \<rparr>
     [0 :: nat] ''w'' ''d'' False
     = Some ([EngineCreated, Prepared, RanWalltime],
             Inl (MaxStepsReachedError 10 (Steps 5))) \<and>
   propagate (\<lambda>wd dn e. [])
     \<lparr> conditions = [Coroutine (map (\<lambda>x. 8 \<le> x)), Blocking (map (\<lambda>x. 5 \<le> x))],
       condition_func_is_coroutine = [True, False],
       engine_cls = \<lparr> output_traj_type = ''xtc'', construct = (\<lambda>k. 0 :: nat),
         prepare = (\<lambda>e sc wd dn. e), prepare_from_files = (\<lambda>e wd dn. e + 2),
         run_walltime = (\<lambda>e wt. ([3 * e + 1, 3 * e + 2, 3 * e + 3], e + 1)),
         steps_done = (\<lambda>e. 10 * int e) \<rparr>,
       engine_kwargs = Map.empty, walltime_per_part = 1, max_steps = Steps 10 \<rparr>
     [0 :: nat] ''w'' ''d'' False
     = Some ([EngineCreated, Prepared, RanWalltime, RanWalltime],
             Inr ([[1, 2, 3], [4, 5, 6]], 1)) \<and>
   propagate (\<lambda>wd dn e. [[0, 1], [2, 3]])
     \<lparr> conditions = [Coroutine (map (\<lambda>x. 8 \<le> x)), Blocking (map (\<lambda>x. 5 \<le> x))],
       condition_func_is_coroutine = [True, False],
       engine_cls = \<lparr> output_traj_type = ''xtc'', construct = (\<lambda>k. 0 :: nat),
         prepare = (\<lambda>e sc wd dn. e), prepare_from_files = (\<lambda>e wd dn. e + 2),
         run_walltime = (\<lambda>e wt. ([3 * e + 1, 3 * e + 2, 3 * e + 3], e + 1)),
         steps_done = (\<lambda>e. 10 * int e) \<rparr>,
       engine_kwargs = Map.empty, walltime_per_part = 1, max_steps = Steps 15 \<rparr>
     [0 :: nat] ''w'' ''d'' True
     = Some ([EngineCreated, GotTrajParts, PreparedFromFiles],
             Inl (MaxStepsReachedError 20 (Steps 15)))"
proof -
  let ?cls = "\<lparr> output_traj_type = ''xtc'', construct = (\<lambda>k. 0 :: nat),
         prepare = (\<lambda>e sc wd dn. e), prepare_from_files = (\<lambda>e wd dn. e + 2),
         run_walltime = (\<lambda>e wt. ([3 * e + 1, 3 * e + 2, 3 * e + (3 :: nat)], e + 1)),
         steps_done = (\<lambda>e. 10 * int e) \<rparr> :: (nat, nat, string) engine_class"
  let ?p = "\<lambda>budget. \<lparr> conditions = [Coroutine (map (\<lambda>x. 8 \<le> x)), Blocking (map (\<lambda>x. 5 \<le> x))],
       condition_func_is_coroutine = [True, False], engine_cls = ?cls,
       engine_kwargs = Map.empty, walltime_per_part = 1, max_steps = budget \<rparr>"
  let ?none = "\<lambda>(wd :: string) (dn :: string) (e :: nat). [] :: nat list list"
  let ?two = "\<lambda>(wd :: string) (dn :: string) (e :: nat). [[0, 1], [2, 3 :: nat]]"
  have flags: "condition_func_is_coroutine (?p b) = map iscoroutinefunction (conditions (?p b))"
    for b by simp
  have s: "per_frame (?p b) [0]" "\<not> holds_on (?p b) [0]" for b
    by (simp_all add: per_frame_def holds_on_def)
  have fresh: "False \<longrightarrow> conditions (?p b) \<noteq> [] \<and> recovered ?none (?p b) ''w'' ''d'' \<noteq> [] \<and>
                 (\<forall>t \<in> set (recovered ?none (?p b) ''w'' ''d'').
                    per_frame (?p b) t \<and> \<not> holds_on (?p b) t)" for b
    by simp
  have again: "True \<longrightarrow> conditions (?p b) \<noteq> [] \<and> recovered ?two (?p b) ''w'' ''d'' \<noteq> [] \<and>
                 (\<forall>t \<in> set (recovered ?two (?p b) ''w'' ''d'').
                    per_frame (?p b) t \<and> \<not> holds_on (?p b) t)" for b
    by (simp add: recovered_def per_frame_def holds_on_def)
  have e0: "(0 :: nat) = loop_engine (?p b) [0] ''w'' ''d'' False" for b
    by (simp add: loop_engine_def)
  have c0: "(0 :: int) = loop_counter (?p b) [0] ''w'' ''d'' False" for b
    by (simp add: loop_counter_def)
  have e2: "(2 :: nat) = loop_engine (?p b) [0] ''w'' ''d'' True" for b
    by (simp add: loop_engine_def)
  have c2: "(20 :: int) = loop_counter (?p b) [0] ''w'' ''d'' True" for b
    by (simp add: loop_counter_def loop_engine_def)
  have q1: "\<forall>k < 1. per_frame (?p b) (segment (?p b) 0 k) \<and> \<not> holds_on (?p b) (segment (?p b) 0 k)"
    for b by (simp add: per_frame_def holds_on_def segment_def)
  have w1: "\<forall>k < 1. within_limit (step_count (?p b) 0 0 k) (max_steps (?p b))"
    if "within_limit 0 b" for b using that by (simp add: step_count_def)
  have q0: "\<forall>k < 0. per_frame (?p b) (segment (?p b) 2 k) \<and> \<not> holds_on (?p b) (segment (?p b) 2 k)"
    for b by simp
  have w0: "\<forall>k < 0. within_limit (step_count (?p b) 2 20 k) (max_steps (?p b))" for b
    by simp
  have x1: "\<not> within_limit (step_count (?p (Steps 5)) 0 0 1) (max_steps (?p (Steps 5)))"
    by (simp add: step_count_def)
  have a: "propagate ?none (?p (Steps 5)) [0] ''w'' ''d'' False
             = Some ([EngineCreated, Prepared, RanWalltime],
                     Inl (MaxStepsReachedError 10 (Steps 5)))"
    using max_steps_reached[OF flags s fresh e0 c0 q1 w1, of "Steps 5"] x1
    by (simp add: step_count_def loop_events_def)
  have y1: "within_limit (step_count (?p (Steps 10)) 0 0 1) (max_steps (?p (Steps 10))) \<and>
            per_frame (?p (Steps 10)) (segment (?p (Steps 10)) 0 1) \<and>
            holds_on (?p (Steps 10)) (segment (?p (Steps 10)) 0 1)"
    by (simp add: step_count_def per_frame_def holds_on_def segment_def)
  from max_steps_reached[OF flags s fresh e0 c0 q1 w1, of "Steps 10"] y1
  obtain c where
    b: "propagate ?none (?p (Steps 10)) [0] ''w'' ''d'' False
          = Some (loop_events False @ replicate (Suc 1) RanWalltime,
                  Inr ((if False then recovered ?none (?p (Steps 10)) ''w'' ''d'' else [])
                       @ map (segment (?p (Steps 10)) 0) [0..<Suc 1], c))"
    by auto
  have b': "propagate ?none (?p (Steps 10)) [0] ''w'' ''d'' False
              = Some ([EngineCreated, Prepared, RanWalltime, RanWalltime],
                      Inr ([[1, 2, 3], [4, 5, 6]], 1))"
    by code_simp
  have x0: "\<not> within_limit (step_count (?p (Steps 15)) 2 20 0) (max_steps (?p (Steps 15)))"
    by (simp add: step_count_def)
  have d: "propagate ?two (?p (Steps 15)) [0] ''w'' ''d'' True
             = Some ([EngineCreated, GotTrajParts, PreparedFromFiles],
                     Inl (MaxStepsReachedError 20 (Steps 15)))"
    using max_steps_reached[OF flags s again e2 c2 q0 w0, of "Steps 15"] x0
    by (simp add: step_count_def loop_events_def)
  from a b b' d show ?thesis by simp
qed


text \<open>
  Claim C7, as stated, fails on a continuation whose starting configuration already
  fulfils a condition: the check of the starting configuration comes first, so
  \<^verbatim>\<open>propagate\<close> returns the starting configuration alone, with the index first
  fulfilled on it, and never recovers the parts of the run, although a condition is
  true on them. With a starting configuration on which no condition holds, the same
  call returns the recovered parts.
\<close>

theorem continuation_start_fullfilled:
  "holds_on
     \<lparr> conditions = [Coroutine (map (\<lambda>x. 8 \<le> x)), Blocking (map (\<lambda>x. 5 \<le> x))],
       condition_func_is_coroutine = [True, False],
       engine_cls = \<lparr> output_traj_type = ''xtc'', construct = (\<lambda>k. 0 :: nat),
         prepare = (\<lambda>e sc wd dn. e), prepare_from_files = (\<lambda>e wd dn. e + 2),
         run_walltime = (\<lambda>e wt. ([3 * e + 1, 3 * e + 2, 3 * e + 3], e + 1)),
         steps_done = (\<lambda>e. 10 * int e) \<rparr>,
       engine_kwargs = Map.empty, walltime_per_part = 1, max_steps = Steps 50 \<rparr>
     [2, 9 :: nat] \<and>
   propagate (\<lambda>wd dn e. [[0, 1], [2, 9]])
     \<lparr> conditions = [Coroutine (map (\<lambda>x. 8 \<le> x)), Blocking (map (\<lambda>x. 5 \<le> x))],
       condition_func_is_coroutine = [True, False],
       engine_cls = \<lparr> output_traj_type = ''xtc'', construct = (\<lambda>k. 0 :: nat),
         prepare = (\<lambda>e sc wd dn. e), prepare_from_files = (\<lambda>e wd dn. e + 2),
         run_walltime = (\<lambda>e wt. ([3 * e + 1, 3 * e + 2, 3 * e + 3], e + 1)),
         steps_done = (\<lambda>e. 10 * int e) \<rparr>,
       engine_kwargs = Map.empty, walltime_per_part = 1, max_steps = Steps 50 \<rparr>
     [6 :: nat] ''w'' ''d'' True
     = Some ([], Inr ([[6]], 1)) \<and>
   propagate (\<lambda>wd dn e. [[0, 1], [2, 9]])
     \<lparr> conditions = [Coroutine (map (\<lambda>x. 8 \<le> x)), Blocking (map (\<lambda>x. 5 \<le> x))],
       condition_func_is_coroutine = [True, False],
       engine_cls = \<lparr> output_traj_type = ''xtc'', construct = (\<lambda>k. 0 :: nat),
         prepare = (\<lambda>e sc wd dn. e), prepare_from_files = (\<lambda>e wd dn. e + 2),
         run_walltime = (\<lambda>e wt. ([3 * e + 1, 3 * e + 2, 3 * e + 3], e + 1)),
         steps_done = (\<lambda>e. 10 * int e) \<rparr>,
       engine_kwargs = Map.empty, walltime_per_part = 1, max_steps = Steps 50 \<rparr>
     [0 :: nat] ''w'' ''d'' True
     = Some ([EngineCreated, GotTrajParts], Inr ([[0, 1], [2, 9]], 0))"
proof -
  let ?cls = "\<lparr> output_traj_type = ''xtc'', construct = (\<lambda>k. 0 :: nat),
         prepare = (\<lambda>e sc wd dn. e), prepare_from_files = (\<lambda>e wd dn. e + 2),
         run_walltime = (\<lambda>e wt. ([3 * e + 1, 3 * e + 2, 3 * e + (3 :: nat)], e + 1)),
         steps_done = (\<lambda>e. 10 * int e) \<rparr> :: (nat, nat, string) engine_class"
  let ?p = "\<lparr> conditions = [Coroutine (map (\<lambda>x. 8 \<le> x)), Blocking (map (\<lambda>x. 5 \<le> x))],
       condition_func_is_coroutine = [True, False], engine_cls = ?cls,
       engine_kwargs = Map.empty, walltime_per_part = 1, max_steps = Steps 50 \<rparr>"
  have a: "holds_on ?p [2, 9]" by (simp add: holds_on_def)
  have b: "propagate (\<lambda>wd dn e. [[0, 1], [2, 9]]) ?p [6] ''w'' ''d'' True
             = Some ([], Inr ([[6]], 1))"
    by code_simp
  have c: "propagate (\<lambda>wd dn e. [[0, 1], [2, 9]]) ?p [0] ''w'' ''d'' True
             = Some ([EngineCreated, GotTrajParts], Inr ([[0, 1], [2, 9]], 0))"
    by code_simp
  from a b c show ?thesis by simp
qed

text \<open>
  Claim C7, amended. On a continuation, when no condition holds on the starting
  configuration, the propagator has at least one condition and at least one part
  is recovered (the flags being those the setter computes, every condition reporting
  one value per frame): all conditions are evaluated on all recovered parts. If a
  condition is true on one of them, \<^verbatim>\<open>propagate\<close> returns exactly the recovered parts
  and the index of the condition first fulfilled along their frames, after creating the
  engine and recovering the parts only: \<^verbatim>\<open>prepare_from_files\<close> is not called and no
  segment is requested. Otherwise the engine is prepared from the files and the loop
  starts on the recovered parts with the step counter at the \<^verbatim>\<open>steps_done\<close> of that
  engine: when this counter already exceeds \<^verbatim>\<open>max_steps\<close>, the error carries it and no
  segment is requested; when it is within \<^verbatim>\<open>max_steps\<close> and a condition is true on the
  first new segment, the recovered parts are returned with that segment after them.
\<close>

theorem continuation_recovers_parts:
  assumes flags: "condition_func_is_coroutine p = map iscoroutinefunction (conditions p)"
    and start: "per_frame p starting_configuration" "\<not> holds_on p starting_configuration"
    and ne: "conditions p \<noteq> []" "recovered get_all_traj_parts p workdir deffnm \<noteq> []"
    and pf: "\<forall>t \<in> set (recovered get_all_traj_parts p workdir deffnm). per_frame p t"
    and trajs: "trajs = recovered get_all_traj_parts p workdir deffnm"
    and engine: "engine = prepare_from_files (engine_cls p)
                            (construct (engine_cls p) (engine_kwargs p)) workdir deffnm"
  shows "(list_ex (holds_on p) trajs \<longrightarrow>
           (\<exists>c g. propagate get_all_traj_parts p starting_configuration workdir deffnm True
                     = Some ([EngineCreated, GotTrajParts], Inr (trajs, c)) \<and>
                   c < length (conditions p) \<and> g < length (values_along p trajs c) \<and>
                   values_along p trajs c ! g \<and>
                   (\<forall>i h. i < length (conditions p) \<and> h < length (values_along p trajs i) \<and>
                          values_along p trajs i ! h \<longrightarrow> g \<le> h \<and> (h = g \<longrightarrow> c \<le> i)))) \<and>
         (\<not> list_ex (holds_on p) trajs \<longrightarrow>
           (\<exists>cv. propagate get_all_traj_parts p starting_configuration workdir deffnm True
                    = propagate_loop p engine False cv trajs (steps_done (engine_cls p) engine)
                        [EngineCreated, GotTrajParts, PreparedFromFiles]) \<and>
           (\<not> within_limit (steps_done (engine_cls p) engine) (max_steps p) \<longrightarrow>
              propagate get_all_traj_parts p starting_configuration workdir deffnm True
                = Some ([EngineCreated, GotTrajParts, PreparedFromFiles],
                        Inl (MaxStepsReachedError (steps_done (engine_cls p) engine)
                               (max_steps p)))) \<and>
           (within_limit (steps_done (engine_cls p) engine) (max_steps p) \<and>
            per_frame p (segment p engine 0) \<and> holds_on p (segment p engine 0) \<longrightarrow>
              (\<exists>c. propagate get_all_traj_parts p starting_configuration workdir deffnm True
                      = Some ([EngineCreated, GotTrajParts, PreparedFromFiles, RanWalltime],
                              Inr (trajs @ [segment p engine 0], c)))))"
proof -
  have pf': "\<forall>t \<in> set trajs. per_frame p t" using pf trajs by simp
  have first: "\<exists>c g. propagate get_all_traj_parts p starting_configuration workdir deffnm True
                     = Some ([EngineCreated, GotTrajParts], Inr (trajs, c)) \<and>
                   c < length (conditions p) \<and> g < length (values_along p trajs c) \<and>
                   values_along p trajs c ! g \<and>
                   (\<forall>i h. i < length (conditions p) \<and> h < length (values_along p trajs i) \<and>
                          values_along p trajs i ! h \<longrightarrow> g \<le> h \<and> (h = g \<longrightarrow> c \<le> i))"
    if h: "list_ex (holds_on p) trajs"
  proof -
    from first_fullfilled_recovered[OF h] obtain c g where
      ff: "first_fullfilled (map (values_along p trajs) [0..<length (conditions p)]) = Inr (c, g)"
      and rest: "c < length (conditions p)" "g < length (values_along p trajs c)"
        "values_along p trajs c ! g"
        "\<forall>i h. i < length (conditions p) \<and> h < length (values_along p trajs i) \<and>
               values_along p trajs i ! h \<longrightarrow> g \<le> h \<and> (h = g \<longrightarrow> c \<le> i)"
      by blast
    have "propagate get_all_traj_parts p starting_configuration workdir deffnm True
            = Some ([EngineCreated, GotTrajParts], Inr (trajs, c))"
      unfolding trajs
      by (rule propagate_recovered_fullfilled[OF flags start ne pf])
         (use h ff trajs in simp_all)
    with rest show ?thesis by blast
  qed
  have second: "(\<exists>cv. propagate get_all_traj_parts p starting_configuration workdir deffnm True
                    = propagate_loop p engine False cv trajs (steps_done (engine_cls p) engine)
                        [EngineCreated, GotTrajParts, PreparedFromFiles]) \<and>
           (\<not> within_limit (steps_done (engine_cls p) engine) (max_steps p) \<longrightarrow>
              propagate get_all_traj_parts p starting_configuration workdir deffnm True
                = Some ([EngineCreated, GotTrajParts, PreparedFromFiles],
                        Inl (MaxStepsReachedError (steps_done (engine_cls p) engine)
                               (max_steps p)))) \<and>
           (within_limit (steps_done (engine_cls p) engine) (max_steps p) \<and>
            per_frame p (segment p engine 0) \<and> holds_on p (segment p engine 0) \<longrightarrow>
              (\<exists>c. propagate get_all_traj_parts p starting_configuration workdir deffnm True
                      = Some ([EngineCreated, GotTrajParts, PreparedFromFiles, RanWalltime],
                              Inr (trajs @ [segment p engine 0], c))))"
    if q: "\<not> list_ex (holds_on p) trajs"
  proof -
    have cont: "conditions p \<noteq> [] \<and> recovered get_all_traj_parts p workdir deffnm \<noteq> [] \<and>
                 (\<forall>t \<in> set (recovered get_all_traj_parts p workdir deffnm).
                    per_frame p t \<and> \<not> holds_on p t)"
      using ne pf q trajs by (auto simp: list_ex_iff)
    have "\<exists>cv. propagate get_all_traj_parts p starting_configuration workdir deffnm True
           = propagate_loop p (loop_engine p starting_configuration workdir deffnm True)
               False cv
               (if True then recovered get_all_traj_parts p workdir deffnm else [])
               (loop_counter p starting_configuration workdir deffnm True)
               (loop_events True)"
      by (rule propagate_reaches_loop[OF flags start]) (rule cont)
    then obtain cv where
      loop: "propagate get_all_traj_parts p starting_configuration workdir deffnm True
               = propagate_loop p engine False cv trajs (steps_done (engine_cls p) engine)
                   [EngineCreated, GotTrajParts, PreparedFromFiles]"
      unfolding loop_engine_def loop_counter_def loop_events_def trajs engine by auto
    have none: "\<forall>k < (0::nat). per_frame p (segment p engine k) \<and> \<not> holds_on p (segment p engine k)"
      "\<forall>k < (0::nat). within_limit (step_count p engine (steps_done (engine_cls p) engine) k)
                         (max_steps p)"
      by simp_all
    have sc: "step_count p engine (steps_done (engine_cls p) engine) 0
                = steps_done (engine_cls p) engine"
      by (simp add: step_count_def)
    have err: "propagate get_all_traj_parts p starting_configuration workdir deffnm True
                = Some ([EngineCreated, GotTrajParts, PreparedFromFiles],
                        Inl (MaxStepsReachedError (steps_done (engine_cls p) engine)
                               (max_steps p)))"
      if "\<not> within_limit (steps_done (engine_cls p) engine) (max_steps p)"
      unfolding loop
      using propagate_loop_reaches_error[OF flags none,
              of cv trajs "[EngineCreated, GotTrajParts, PreparedFromFiles]"] that
      by (simp add: sc)
    have ok: "\<exists>c. propagate get_all_traj_parts p starting_configuration workdir deffnm True
                      = Some ([EngineCreated, GotTrajParts, PreparedFromFiles, RanWalltime],
                              Inr (trajs @ [segment p engine 0], c))"
      if "within_limit (steps_done (engine_cls p) engine) (max_steps p)"
        "per_frame p (segment p engine 0)" "holds_on p (segment p engine 0)"
    proof -
      have w: "within_limit (step_count p engine (steps_done (engine_cls p) engine) 0)
                 (max_steps p)"
        using that(1) by (simp add: sc)
      from propagate_loop_reaches_condition[OF flags none w that(2,3),
             of cv trajs "[EngineCreated, GotTrajParts, PreparedFromFiles]"]
      show ?thesis unfolding loop by auto
    qed
    from loop err ok show ?thesis by blast
  qed
  from first second show ?thesis by blast
qed

theorem continuation_recovers_parts_witness:
  "propagate (\<lambda>wd dn e. [[0, 1], [2, 5]])
     \<lparr> conditions = [Coroutine (map (\<lambda>x. 8 \<le> x)), Blocking (map (\<lambda>x. 5 \<le> x))],
       condition_func_is_coroutine = [True, False],
       engine_cls = \<lparr> output_traj_type = ''xtc'', construct = (\<lambda>k. 0 :: nat),
         prepare = (\<lambda>e sc wd dn. e), prepare_from_files = (\<lambda>e wd dn. e + 2),
         run_walltime = (\<lambda>e wt. ([3 * e + 1, 3 * e + 2, 3 * e + 3], e + 1)),
         steps_done = (\<lambda>e. 10 * int e) \<rparr>,
       engine_kwargs = Map.empty, walltime_per_part = 1, max_steps = Steps 50 \<rparr>
     [0 :: nat] ''w'' ''d'' True
     = Some ([EngineCreated, GotTrajParts], Inr ([[0, 1], [2, 5]], 1)) \<and>
   propagate (\<lambda>wd dn e. [[0, 1], [2, 3]])
     \<lparr> conditions = [Coroutine (map (\<lambda>x. 8 \<le> x)), Blocking (map (\<lambda>x. 5 \<le> x))],
       condition_func_is_coroutine = [True, False],
       engine_cls = \<lparr> output_traj_type = ''xtc'', construct = (\<lambda>k. 0 :: nat),
         prepare = (\<lambda>e sc wd dn. e), prepare_from_files = (\<lambda>e wd dn. e + 2),
         run_walltime = (\<lambda>e wt. ([3 * e + 1, 3 * e + 2, 3 * e + 3], e + 1)),
         steps_done = (\<lambda>e. 10 * int e) \<rparr>,
       engine_kwargs = Map.empty, walltime_per_part = 1, max_steps = Steps 15 \<rparr>
     [0 :: nat] ''w'' ''d'' True
     = Some ([EngineCreated, GotTrajParts, PreparedFromFiles],
             Inl (MaxStepsReachedError 20 (Steps 15))) \<and>
   propagate (\<lambda>wd dn e. [[0, 1], [2, 3]])
     \<lparr> conditions = [Coroutine (map (\<lambda>x. 8 \<le> x)), Blocking (map (\<lambda>x. 5 \<le> x))],
       condition_func_is_coroutine = [True, False],
       engine_cls = \<lparr> output_traj_type = ''xtc'', construct = (\<lambda>k. 0 :: nat),
         prepare = (\<lambda>e sc wd dn. e), prepare_from_files = (\<lambda>e wd dn. e + 2),
         run_walltime = (\<lambda>e wt. ([3 * e + 1, 3 * e + 2, 3 * e + 3], e + 1)),
         steps_done = (\<lambda>e. 10 * int e) \<rparr>,
       engine_kwargs = Map.empty, walltime_per_part = 1, max_steps = Steps 50 \<rparr>
     [0 :: nat] ''w'' ''d'' True
     = Some ([EngineCreated, GotTrajParts, PreparedFromFiles, RanWalltime],
             Inr ([[0, 1], [2, 3], [7, 8, 9]], 1))"
proof -
  let ?cls = "\<lparr> output_traj_type = ''xtc'', construct = (\<lambda>k. 0 :: nat),
         prepare = (\<lambda>e sc wd dn. e), prepare_from_files = (\<lambda>e wd dn. e + 2),
         run_walltime = (\<lambda>e wt. ([3 * e + 1, 3 * e + 2, 3 * e + (3 :: nat)], e + 1)),
         steps_done = (\<lambda>e. 10 * int e) \<rparr> :: (nat, nat, string) engine_class"
  let ?p = "\<lambda>budget. \<lparr> conditions = [Coroutine (map (\<lambda>x. 8 \<le> x)), Blocking (map (\<lambda>x. 5 \<le> x))],
       condition_func_is_coroutine = [True, False], engine_cls = ?cls,
       engine_kwargs = Map.empty, walltime_per_part = 1, max_steps = budget \<rparr>"
  let ?met = "\<lambda>(wd :: string) (dn :: string) (e :: nat). [[0, 1], [2, 5 :: nat]]"
  let ?two = "\<lambda>(wd :: string) (dn :: string) (e :: nat). [[0, 1], [2, 3 :: nat]]"
  have flags: "condition_func_is_coroutine (?p b) = map iscoroutinefunction (conditions (?p b))"
    for b by simp
  have s: "per_frame (?p b) [0]" "\<not> holds_on (?p b) [0]" for b
    by (simp_all add: per_frame_def holds_on_def)
  have ne: "conditions (?p b) \<noteq> []" for b by simp
  have nm: "recovered ?met (?p b) ''w'' ''d'' \<noteq> []"
    and nt: "recovered ?two (?p b) ''w'' ''d'' \<noteq> []" for b
    by (simp_all add: recovered_def)
  have pm: "\<forall>t \<in> set (recovered ?met (?p b) ''w'' ''d''). per_frame (?p b) t"
    and pt: "\<forall>t \<in> set (recovered ?two (?p b) ''w'' ''d''). per_frame (?p b) t" for b
    by (simp_all add: recovered_def per_frame_def)
  have tm: "[[0, 1], [2, 5]] = recovered ?met (?p b) ''w'' ''d''"
    and tt: "[[0, 1], [2, 3]] = recovered ?two (?p b) ''w'' ''d''" for b
    by (simp_all add: recovered_def)
  have en: "(2 :: nat) = prepare_from_files (engine_cls (?p b))
                            (construct (engine_cls (?p b)) (engine_kwargs (?p b))) ''w'' ''d''"
    for b by simp
  have hm: "list_ex (holds_on (?p b)) [[0, 1], [2, 5]]"
    and ht: "\<not> list_ex (holds_on (?p b)) [[0, 1], [2, 3]]" for b
    by (simp_all add: holds_on_def)
  from continuation_recovers_parts[OF flags s ne nm pm tm en, of "Steps 50"] hm
  obtain c where
    a: "propagate ?met (?p (Steps 50)) [0] ''w'' ''d'' True
          = Some ([EngineCreated, GotTrajParts], Inr ([[0, 1], [2, 5]], c))"
    by blast
  have a': "propagate ?met (?p (Steps 50)) [0] ''w'' ''d'' True
          = Some ([EngineCreated, GotTrajParts], Inr ([[0, 1], [2, 5]], 1))"
    by code_simp
  have x: "\<not> within_limit (steps_done (engine_cls (?p (Steps 15))) 2) (max_steps (?p (Steps 15)))"
    by simp
  from continuation_recovers_parts[OF flags s ne nt pt tt en, of "Steps 15"] ht x
  have b: "propagate ?two (?p (Steps 15)) [0] ''w'' ''d'' True
             = Some ([EngineCreated, GotTrajParts, PreparedFromFiles],
                     Inl (MaxStepsReachedError (steps_done (engine_cls (?p (Steps 15))) 2)
                            (max_steps (?p (Steps 15)))))"
    by blast
  have y: "within_limit (steps_done (engine_cls (?p (Steps 50))) 2) (max_steps (?p (Steps 50))) \<and>
           per_frame (?p (Steps 50)) (segment (?p (Steps 50)) 2 0) \<and>
           holds_on (?p (Steps 50)) (segment (?p (Steps 50)) 2 0)"
    by (simp add: per_frame_def holds_on_def segment_def)
  from continuation_recovers_parts[OF flags s ne nt pt tt en, of "Steps 50"] ht y
  obtain c' where
    d: "propagate ?two (?p (Steps 50)) [0] ''w'' ''d'' True
          = Some ([EngineCreated, GotTrajParts, PreparedFromFiles, RanWalltime],
                  Inr ([[0, 1], [2, 3]] @ [segment (?p (Steps 50)) 2 0], c'))"
    by blast
  have d': "propagate ?two (?p (Steps 50)) [0] ''w'' ''d'' True
     = Some ([EngineCreated, GotTrajParts, PreparedFromFiles, RanWalltime],
             Inr ([[0, 1], [2, 3], [7, 8, 9]], 1))"
    by code_simp
  from a a' b d d' show ?thesis by simp
qed

end
